theory Spec2Isabelle
  imports Complex_Main "HOL-Library.Word"
begin

unbundle bit_operations_syntax

section \<open>Data model of \<open>Cryptographer\<close>\<close>

text \<open>
  \<open>cryptographer.h\<close>: \<open>uint8\<close>, \<open>uint32\<close> and \<open>uint64\<close> are the fixed-width unsigned
  integers; \<open>byteSize\<close> is the constant 8. The two private members of the class are the
  arrays \<open>uint32 m_key[8]\<close> and \<open>uint8 m_replace_table[8][16]\<close>; an array is modelled as
  the function from its index to its element (the code only ever uses the indices
  \<open>0..7\<close> and \<open>0..15\<close>).
\<close>

type_synonym uint8 = "8 word"
type_synonym uint32 = "32 word"
type_synonym uint64 = "64 word"

definition byteSize :: nat where
  "byteSize = 8"

record cryptographer =
  m_key :: "nat \<Rightarrow> uint32"
  m_replace_table :: "nat \<Rightarrow> nat \<Rightarrow> uint8"

section \<open>The round function and the three cycles\<close>

text \<open>\<open>Cryptographer::pow\<close> is \<open>n << p\<close> and \<open>Cryptographer::pow2\<close> is \<open>(uint64)1 << p\<close>.\<close>

definition pow :: "uint64 \<Rightarrow> nat \<Rightarrow> uint64" where
  "pow n p = push_bit p n"

definition pow2 :: "nat \<Rightarrow> uint64" where
  "pow2 p = push_bit p 1"

text \<open>The local array \<open>mask\<close> of \<open>mainStep\<close> (renamed: \<open>mask\<close> is a constant of the library).\<close>

definition mask_arr :: "uint32 list" where
  "mask_arr = [0x0000000f, 0x000000f0, 0x00000f00, 0x0000f000,
           0x000f0000, 0x00f00000, 0x0f000000, 0xf0000000]"

text \<open>
  \<open>Cryptographer::mainStep\<close>. The sum of step 1 is computed in 64 bits
  (\<open>(uint64)N1 + m_key[_key_num]\<close>) and reduced modulo \<open>pow2(32) - 1\<close>. In step 2 the
  table entry is shifted as an \<open>int\<close> and added to the \<open>uint32\<close> accumulator, which is
  addition modulo \<open>2^32\<close>; for an entry of at most 15 the shifted value is below \<open>2^32\<close>,
  and for a larger entry the shift is taken modulo \<open>2^32\<close> as well, as two's complement
  targets do.
\<close>

definition mainStep :: "cryptographer \<Rightarrow> uint64 \<Rightarrow> nat \<Rightarrow> uint64" where
  "mainStep c data key_num =
    (let N1 = (ucast (data AND 0x00000000ffffffff) :: uint32);
         N2 = (ucast (drop_bit (4 * byteSize) (data AND 0xffffffff00000000)) :: uint32);
         S = (ucast (((ucast N1 :: uint64) + ucast (m_key c key_num))
                      mod (pow2 (4 * byteSize) - 1)) :: uint32);
         tmp_res = foldl (\<lambda>tmp i.
                      let Si = (ucast (drop_bit (i * 4) (S AND mask_arr ! i)) :: uint8)
                      in tmp + push_bit (i * 4) (ucast (m_replace_table c i (unat Si)) :: uint32))
                    (0 :: uint32) [0..<8];
         S = drop_bit (4 * byteSize - 11) tmp_res OR push_bit 11 tmp_res;
         S = S XOR N2;
         tmp_N1 = (ucast N1 :: uint64);
         res = push_bit (4 * byteSize) tmp_N1 OR ucast S
     in res)"

text \<open>
  The 32-round cycles end with \<open>pow((uint64)N1, 32) | N2\<close>, which exchanges the two
  halves of the block.
\<close>

definition swap_halves :: "uint64 \<Rightarrow> uint64" where
  "swap_halves data =
    (let N1 = (ucast (data AND 0x00000000ffffffff) :: uint32);
         N2 = (ucast (drop_bit (4 * byteSize) (data AND 0xffffffff00000000)) :: uint32);
         res = pow (ucast N1) (4 * byteSize) OR ucast N2
     in res)"

text \<open>\<open>Cryptographer::cycle_32Z\<close>: three passes \<open>j = 0..7\<close>, one pass \<open>j = 7..0\<close>.\<close>

definition cycle_32Z :: "cryptographer \<Rightarrow> uint64 \<Rightarrow> uint64" where
  "cycle_32Z c data0 =
    (let data = foldl (\<lambda>data i. foldl (mainStep c) data [0..<8]) data0 [0..<3];
         data = foldl (mainStep c) data (rev [0..<8])
     in swap_halves data)"

text \<open>\<open>Cryptographer::cycle_32R\<close>: one pass \<open>j = 0..7\<close>, three passes \<open>j = 7..0\<close>.\<close>

definition cycle_32R :: "cryptographer \<Rightarrow> uint64 \<Rightarrow> uint64" where
  "cycle_32R c data0 =
    (let data = foldl (mainStep c) data0 [0..<8];
         data = foldl (\<lambda>data i. foldl (mainStep c) data (rev [0..<8])) data [0..<3]
     in swap_halves data)"

text \<open>\<open>Cryptographer::cycle_16Z\<close>: two passes \<open>j = 0..7\<close>, the state returned as it is.\<close>

definition cycle_16Z :: "cryptographer \<Rightarrow> uint64 \<Rightarrow> uint64" where
  "cycle_16Z c data0 =
    foldl (\<lambda>data i. foldl (mainStep c) data [0..<8]) data0 [0..<2]"

section \<open>Buffers and loops\<close>

text \<open>
  A buffer \<open>uint8 *_data\<close> is the list of its bytes. \<open>memcpy\<close> between the buffer and
  the local \<open>uint64 block\<close> is modelled for a little-endian host (the byte at the lowest
  address is the least significant one); a copy that leaves the buffer, or that is longer
  than the 8 bytes of \<open>block\<close>, is undefined in C++ and is the error \<open>OutOfBounds\<close> here.
\<close>

datatype error = OutOfBounds

fun le_word :: "uint8 list \<Rightarrow> uint64" where
  "le_word [] = 0"
| "le_word (b # bs) = ucast b OR push_bit 8 (le_word bs)"

definition le_bytes :: "uint64 \<Rightarrow> uint8 list" where
  "le_bytes w = map (\<lambda>k. ucast (drop_bit (8 * k) w)) [0..<8]"

text \<open>\<open>block = 0; memcpy(&block, &_data[i], n)\<close> (for \<open>n = 8\<close> the whole block is overwritten).\<close>

definition memcpy_from :: "uint8 list \<Rightarrow> nat \<Rightarrow> nat \<Rightarrow> error + uint64" where
  "memcpy_from d i n =
    (if n \<le> 8 \<and> i + n \<le> length d then Inr (le_word (take n (drop i d))) else Inl OutOfBounds)"

text \<open>\<open>memcpy(&_data[i], &block, n)\<close>.\<close>

definition memcpy_to :: "uint8 list \<Rightarrow> nat \<Rightarrow> uint64 \<Rightarrow> nat \<Rightarrow> error + uint8 list" where
  "memcpy_to d i block n =
    (if n \<le> 8 \<and> i + n \<le> length d
     then Inr (take i d @ take n (le_bytes block) @ drop (i + n) d)
     else Inl OutOfBounds)"

text \<open>
  A \<open>for\<close> loop whose counter is a \<open>uint32\<close> may not terminate; the loops of the four
  transforms are instances of \<open>for_loop\<close>, where \<open>None\<close> is a loop that never exits,
  \<open>Some (Inl e)\<close> a loop stopped by the error \<open>e\<close> and \<open>Some (Inr s)\<close> the state at the
  exit. The body includes the increment of the counter.
\<close>

partial_function (option) for_loop ::
  "('s \<Rightarrow> bool) \<Rightarrow> ('s \<Rightarrow> error + 's) \<Rightarrow> 's \<Rightarrow> (error + 's) option" where
  "for_loop cond body s =
    (if cond s
     then (case body s of Inl e \<Rightarrow> Some (Inl e) | Inr s' \<Rightarrow> for_loop cond body s')
     else Some (Inr s))"

declare for_loop.simps [code]

section \<open>The four transforms\<close>

text \<open>
  \<open>Cryptographer::simpleReplace\<close>. The result is the returned \<open>bool\<close> and the buffer
  after the call.
\<close>

definition simpleReplace ::
  "cryptographer \<Rightarrow> uint8 list \<Rightarrow> uint32 \<Rightarrow> bool \<Rightarrow> (error + bool \<times> uint8 list) option" where
  "simpleReplace c data sz encoding =
    (if sz mod 8 \<noteq> 0 then Some (Inr (False, data))
     else
       case for_loop (\<lambda>(i, d). i < sz)
              (\<lambda>(i, d).
                 case memcpy_from d (unat i) 8 of Inl e \<Rightarrow> Inl e | Inr block \<Rightarrow>
                   (let block = (if encoding then cycle_32Z c block else cycle_32R c block)
                    in case memcpy_to d (unat i) block 8 of Inl e \<Rightarrow> Inl e
                       | Inr d \<Rightarrow> Inr (i + 8, d)))
              (0, data)
       of None \<Rightarrow> None
        | Some (Inl e) \<Rightarrow> Some (Inl e)
        | Some (Inr (i, d)) \<Rightarrow> Some (Inr (True, d)))"

text \<open>
  The tail of \<open>gamming\<close> and of \<open>gammingWF\<close>, the same statements in both: with
  \<open>tail_size = i == _size ? 0 : _size - i\<close>, a non-empty tail is XORed with
  \<open>cycle_32Z(S)\<close>, and \<open>S\<close> is left as it is.
\<close>

definition gamma_tail ::
  "cryptographer \<Rightarrow> uint32 \<Rightarrow> uint32 \<Rightarrow> uint8 list \<Rightarrow> uint64 \<Rightarrow> error + uint8 list" where
  "gamma_tail c sz i d S =
    (let tail_size = (if i = sz then 0 else sz - i)
     in if tail_size \<noteq> 0
        then case memcpy_from d (unat i) (unat tail_size) of Inl e \<Rightarrow> Inl e | Inr block \<Rightarrow>
               memcpy_to d (unat i) (block XOR cycle_32Z c S) (unat tail_size)
        else Inr d)"

text \<open>
  \<open>Cryptographer::gamming\<close>. \<open>S0 + C1\<close> and \<open>S1 + C2 - 1\<close> are \<open>uint32\<close> sums; they
  are converted to \<open>uint64\<close> for the reduction modulo \<open>pow2(32)\<close> and \<open>pow2(32) - 1\<close>.
  The result is the returned \<open>bool\<close>, the buffer and the synchro \<open>S\<close> after the call.
\<close>

definition gamming ::
  "cryptographer \<Rightarrow> uint8 list \<Rightarrow> uint32 \<Rightarrow> uint64 \<Rightarrow> (error + bool \<times> uint8 list \<times> uint64) option" where
  "gamming c data sz S =
    (let S = cycle_32Z c S;
         S0 = (ucast (S AND 0x00000000ffffffff) :: uint32);
         S1 = (ucast (drop_bit (4 * byteSize) (S AND 0xffffffff00000000)) :: uint32);
         C1 = (0x1010101 :: uint32);
         C2 = (0x1010104 :: uint32)
     in case for_loop (\<lambda>(i, d, S0, S1, S). i + 8 < sz)
               (\<lambda>(i, d, S0, S1, S).
                  let S0 = (ucast ((ucast (S0 + C1) :: uint64) mod pow2 32) :: uint32);
                      S1 = (ucast ((ucast (S1 + C2 - 1) :: uint64) mod (pow2 32 - 1) + 1) :: uint32);
                      S = ucast S0 OR push_bit (4 * byteSize) (ucast S1 :: uint64)
                  in case memcpy_from d (unat i) 8 of Inl e \<Rightarrow> Inl e | Inr block \<Rightarrow>
                       (case memcpy_to d (unat i) (block XOR cycle_32Z c S) 8 of Inl e \<Rightarrow> Inl e
                        | Inr d \<Rightarrow> Inr (i + 8, d, S0, S1, S)))
               (0, data, S0, S1, S)
        of None \<Rightarrow> None
         | Some (Inl e) \<Rightarrow> Some (Inl e)
         | Some (Inr (i, d, S0, S1, S)) \<Rightarrow>
             (case gamma_tail c sz i d S of Inl e \<Rightarrow> Some (Inl e)
              | Inr d \<Rightarrow> Some (Inr (True, d, S))))"

text \<open>\<open>Cryptographer::gammingWF\<close>.\<close>

definition gammingWF ::
  "cryptographer \<Rightarrow> uint8 list \<Rightarrow> uint32 \<Rightarrow> uint64 \<Rightarrow> bool
    \<Rightarrow> (error + bool \<times> uint8 list \<times> uint64) option" where
  "gammingWF c data sz S encoding =
    (case for_loop (\<lambda>(i, d, S). i + 8 < sz)
            (\<lambda>(i, d, S).
               case memcpy_from d (unat i) 8 of Inl e \<Rightarrow> Inl e | Inr block \<Rightarrow>
                 (let tmp_block = block;
                      block = block XOR cycle_32Z c S
                  in case memcpy_to d (unat i) block 8 of Inl e \<Rightarrow> Inl e
                     | Inr d \<Rightarrow> Inr (i + 8, d, if encoding then block else tmp_block)))
            (0, data, S)
     of None \<Rightarrow> None
      | Some (Inl e) \<Rightarrow> Some (Inl e)
      | Some (Inr (i, d, S)) \<Rightarrow>
          (case gamma_tail c sz i d S of Inl e \<Rightarrow> Some (Inl e)
           | Inr d \<Rightarrow> Some (Inr (True, d, S))))"

text \<open>\<open>Cryptographer::imiIns\<close>; it only reads the buffer.\<close>

definition imiIns :: "cryptographer \<Rightarrow> uint8 list \<Rightarrow> uint32 \<Rightarrow> (error + uint32) option" where
  "imiIns c data sz =
    (case for_loop (\<lambda>(i, S). i + 8 < sz)
            (\<lambda>(i, S).
               case memcpy_from data (unat i) 8 of Inl e \<Rightarrow> Inl e
               | Inr block \<Rightarrow> Inr (i + 8, cycle_16Z c (S XOR block)))
            (0, 0)
     of None \<Rightarrow> None
      | Some (Inl e) \<Rightarrow> Some (Inl e)
      | Some (Inr (i, S)) \<Rightarrow>
          (let tail_size = (if i = sz then 0 else sz - i)
           in if tail_size \<noteq> 0
              then case memcpy_from data (unat i) (unat tail_size) of Inl e \<Rightarrow> Some (Inl e)
                   | Inr block \<Rightarrow>
                       Some (Inr (ucast (cycle_16Z c (S XOR block) AND 0x00000000ffffffff)))
              else Some (Inr (ucast (S AND 0x00000000ffffffff)))))"

section \<open>Initialisation of the key and of the substitution table\<close>

text \<open>
  \<open>Cryptographer::init\<close> draws from the C library generator: \<open>srandom(seed)\<close> resets its
  state and every \<open>random()\<close> returns a \<open>long\<close> between 0 and \<open>2^31 - 1\<close> and advances
  the state. The generator is not part of the repository; it is the pair of parameters
  \<open>srandom\<close> (the state after seeding) and \<open>random\<close> (the drawn number and the next
  state), and \<open>now\<close> is the value of \<open>time(NULL)\<close>. The result is the object after the
  call and the state in which the generator is left.
\<close>

definition init ::
  "(uint32 \<Rightarrow> 'g) \<Rightarrow> ('g \<Rightarrow> nat \<times> 'g) \<Rightarrow> nat \<Rightarrow> cryptographer \<Rightarrow> bool \<Rightarrow> cryptographer \<times> 'g" where
  "init srandom random now c rand =
    (let g = (if rand then srandom (of_nat now) else srandom 0)
     in foldl (\<lambda>(c, g) i.
                 let (r, g) = random g;
                     c = c\<lparr>m_key := (m_key c)(i := of_nat (r mod 0xffffffff))\<rparr>
                 in foldl (\<lambda>(c, g) j.
                             let (r, g) = random g
                             in (c\<lparr>m_replace_table :=
                                      (m_replace_table c)
                                        (i := (m_replace_table c i)(j := of_nat (r mod 0xf)))\<rparr>, g))
                      (c, g) [0..<16])
          (c, g) [0..<8])"

section \<open>The acceptance test of the initial synchro\<close>

text \<open>
  \<open>RandomGen::isCurrentS\<close> tests the member \<open>S\<close>, a \<open>uint64\<close> (it is passed to
  \<open>gammingWF\<close> as the \<open>uint64 &\<close> parameter), so \<open>S_bits_size\<close> is 64. The test is
  \<open>S & (1 << i)\<close> for \<open>i = 0..63\<close> where \<open>1 << i\<close> is a shift of the \<open>int\<close> 1: its
  value is converted to \<open>uint64\<close> with sign extension, and for \<open>i \<ge> 32\<close> the shift is
  undefined in C++. The parameter \<open>wide\<close> gives the 32-bit result of the shift for those
  \<open>i\<close>; \<open>wide_x86\<close> is the result on x86, where the shift count is taken modulo 32.
\<close>

definition shl_one :: "(nat \<Rightarrow> uint32) \<Rightarrow> nat \<Rightarrow> uint64" where
  "shl_one wide i = scast (if i < 32 then push_bit i 1 else wide i)"

definition wide_x86 :: "nat \<Rightarrow> uint32" where
  "wide_x86 i = push_bit (i mod 32) 1"

text \<open>
  \<open>bound\<close> is the \<open>float\<close> nearest to 7.68 and \<open>diff\<close> a \<open>uint8\<close>; the comparisons of
  an integer with \<open>bound\<close> and with \<open>-bound\<close> have the same outcome for 7.68 itself, which
  is the value used here.
\<close>

definition isCurrentS :: "(nat \<Rightarrow> uint32) \<Rightarrow> uint64 \<Rightarrow> bool" where
  "isCurrentS wide S =
    (let zero = foldl (\<lambda>zero i. if S AND shl_one wide i \<noteq> 0 then zero + 1 else zero)
                  (0 :: uint8) [0..<64];
         S_bits_size = (64 :: uint8);
         bound = (of_nat (unat S_bits_size) * 12 / 100 :: real);
         diff = (zero - (S_bits_size - zero) :: uint8)
     in if of_nat (unat diff) \<ge> bound \<or> of_nat (unat diff) \<le> - bound then False else True)"

section \<open>The statements of the specification\<close>

text \<open>
  The round of the specification, in its words: the sum modulo \<open>2^32 - 1\<close> in exact
  arithmetic, the eight nibbles of the sum replaced through the table and put back at
  their places, the rotation by 11 bits to the left, the XOR with \<open>N2\<close>, and
  \<open>(N1 << 32) | (rotated XOR N2)\<close> as the result.
\<close>

definition spec_nibble :: "nat \<Rightarrow> nat \<Rightarrow> nat" where
  "spec_nibble x i = (x div 16 ^ i) mod 16"

definition spec_reassemble :: "(nat \<Rightarrow> uint8) \<Rightarrow> uint32" where
  "spec_reassemble v = foldr (\<lambda>i w. push_bit (4 * i) (ucast (v i)) OR w) [0..<8] 0"

definition spec_mainStep :: "cryptographer \<Rightarrow> uint32 \<Rightarrow> uint32 \<Rightarrow> nat \<Rightarrow> uint64" where
  "spec_mainStep c N1 N2 k =
    (let sum = (unat N1 + unat (m_key c k)) mod (2 ^ 32 - 1);
         R = word_rotl 11 (spec_reassemble (\<lambda>i. m_replace_table c i (spec_nibble sum i)))
     in push_bit 32 (ucast N1) OR ucast (R XOR N2))"

text \<open>
  The integrity tag of the specification: the fold over the 8-byte blocks of the buffer,
  the last one padded with zeros, of \<open>accumulator = reducedCycle(accumulator XOR block)\<close>
  from 0, where the reduced cycle is two passes over the key words \<open>0..7\<close> with no final
  exchange of the halves; the tag is the low half of the last accumulator.
\<close>

fun spec_blocks :: "nat \<Rightarrow> uint8 list \<Rightarrow> uint8 list list" where
  "spec_blocks 0 d = []"
| "spec_blocks (Suc n) d = (if d = [] then [] else take 8 d # spec_blocks n (drop 8 d))"

definition spec_reducedCycle :: "cryptographer \<Rightarrow> uint64 \<Rightarrow> uint64" where
  "spec_reducedCycle c data = foldl (mainStep c) data ([0..<8] @ [0..<8])"

definition spec_computeMAC :: "cryptographer \<Rightarrow> uint8 list \<Rightarrow> uint32" where
  "spec_computeMAC c d =
    ucast (foldl (\<lambda>acc b. spec_reducedCycle c (acc XOR le_word b)) 0 (spec_blocks (length d) d))"

text \<open>
  The acceptance band of the specification: the number of set bits among the 64 differs
  from half the width, 32, by at most 12 per cent of it.
\<close>

definition popcount :: "uint64 \<Rightarrow> nat" where
  "popcount S = length (filter (bit S) [0..<64])"

definition spec_balanced :: "uint64 \<Rightarrow> bool" where
  "spec_balanced S = (\<bar>real (popcount S) - 32\<bar> \<le> 12 / 100 * 32)"

section \<open>Auxiliary notions\<close>

text \<open>The halves of a block and the block made of two halves.\<close>

definition lo :: "uint64 \<Rightarrow> uint32" where
  "lo d = ucast d"

definition hi :: "uint64 \<Rightarrow> uint32" where
  "hi d = ucast (drop_bit 32 d)"

definition join :: "uint32 \<Rightarrow> uint32 \<Rightarrow> uint64" where
  "join h l = push_bit 32 (ucast h) OR ucast l"

text \<open>Steps 1 to 3 of \<open>mainStep\<close>: the value that is XORed with \<open>N2\<close>.\<close>

definition round_f :: "cryptographer \<Rightarrow> nat \<Rightarrow> uint32 \<Rightarrow> uint32" where
  "round_f c key_num N1 =
    (let S = (ucast (((ucast N1 :: uint64) + ucast (m_key c key_num))
                      mod (pow2 (4 * byteSize) - 1)) :: uint32);
         tmp_res = foldl (\<lambda>tmp i.
                      let Si = (ucast (drop_bit (i * 4) (S AND mask_arr ! i)) :: uint8)
                      in tmp + push_bit (i * 4) (ucast (m_replace_table c i (unat Si)) :: uint32))
                    (0 :: uint32) [0..<8]
     in drop_bit (4 * byteSize - 11) tmp_res OR push_bit 11 tmp_res)"

text \<open>The key words of the 32 rounds of \<open>cycle_32Z\<close>, in order.\<close>

definition keys_32Z :: "nat list" where
  "keys_32Z = [0..<8] @ [0..<8] @ [0..<8] @ rev [0..<8]"

text \<open>
  The counters of \<open>gamming\<close> after one more pass through the body of its loop, and the
  synchro made of them.
\<close>

definition next_S0 :: "uint32 \<Rightarrow> uint32" where
  "next_S0 S0 = ucast ((ucast (S0 + 0x1010101) :: uint64) mod pow2 32)"

definition next_S1 :: "uint32 \<Rightarrow> uint32" where
  "next_S1 S1 = ucast ((ucast (S1 + 0x1010104 - 1) :: uint64) mod (pow2 32 - 1) + 1)"

definition next_synchro :: "uint64 \<Rightarrow> uint64" where
  "next_synchro S = ucast (next_S0 (lo S)) OR push_bit 32 (ucast (next_S1 (hi S)) :: uint64)"

text \<open>The \<open>n\<close>-th number drawn from the generator that starts in the state \<open>g\<close>.\<close>

definition nth_draw :: "('g \<Rightarrow> nat \<times> 'g) \<Rightarrow> 'g \<Rightarrow> nat \<Rightarrow> nat" where
  "nth_draw random g n = fst (random (((\<lambda>g. snd (random g)) ^^ n) g))"

text \<open>
  A key and a table for the examples: the key words \<open>1..8\<close> and the table with
  \<open>table[i][j] = j\<close>.
\<close>

definition example_cr :: cryptographer where
  "example_cr = \<lparr>m_key = (\<lambda>i. of_nat (i + 1)), m_replace_table = (\<lambda>i j. of_nat j)\<rparr>"

text \<open>
  The first \<open>n\<close> 8-byte blocks of a byte list, each one read as a word, transformed by
  \<open>f\<close> and written back.
\<close>

fun map_blocks :: "(uint64 \<Rightarrow> uint64) \<Rightarrow> nat \<Rightarrow> uint8 list \<Rightarrow> uint8 list" where
  "map_blocks f 0 bs = []"
| "map_blocks f (Suc n) bs = le_bytes (f (le_word (take 8 bs))) @ map_blocks f n (drop 8 bs)"

text \<open>Every entry of the substitution table is a 4-bit value.\<close>

definition table_in_range :: "cryptographer \<Rightarrow> bool" where
  "table_in_range c = list_all (\<lambda>i. list_all (\<lambda>j. m_replace_table c i j \<le> 15) [0..<16]) [0..<8]"

text \<open>
  The \<open>n\<close> blocks that the loop of \<open>gammingWF\<close> writes, and the synchro it leaves, from
  the synchro \<open>S\<close> and the bytes \<open>bs\<close> of the blocks.
\<close>

fun wf_blocks :: "cryptographer \<Rightarrow> bool \<Rightarrow> nat \<Rightarrow> uint64 \<Rightarrow> uint8 list \<Rightarrow> uint8 list" where
  "wf_blocks c e 0 S bs = []"
| "wf_blocks c e (Suc n) S bs =
    (let x = le_word (take 8 bs); y = x XOR cycle_32Z c S
     in le_bytes y @ wf_blocks c e n (if e then y else x) (drop 8 bs))"

fun wf_sync :: "cryptographer \<Rightarrow> bool \<Rightarrow> nat \<Rightarrow> uint64 \<Rightarrow> uint8 list \<Rightarrow> uint64" where
  "wf_sync c e 0 S bs = S"
| "wf_sync c e (Suc n) S bs =
    (let x = le_word (take 8 bs); y = x XOR cycle_32Z c S
     in wf_sync c e n (if e then y else x) (drop 8 bs))"

text \<open>The number of passes through a loop that runs while \<open>i + 8 < _size\<close> from \<open>i = 0\<close>.\<close>

definition loop_blocks :: "uint32 \<Rightarrow> nat" where
  "loop_blocks sz = (unat sz - 1) div 8"

text \<open>Block \<open>N\<close> of a buffer, as \<open>memcpy\<close> reads it into a \<open>uint64\<close>.\<close>

definition block_at :: "uint8 list \<Rightarrow> nat \<Rightarrow> uint64" where
  "block_at d N = le_word (take 8 (drop (8 * N) d))"

text \<open>
  The bytes \<open>bs\<close> (at most 8) after \<open>block = 0; memcpy(&block, bs, n); block ^= g;
  memcpy(bs, &block, n)\<close>: each byte XORed with the byte of \<open>g\<close> at its place.
\<close>

definition xor_bytes :: "uint8 list \<Rightarrow> uint64 \<Rightarrow> uint8 list" where
  "xor_bytes bs g = map2 (XOR) bs (le_bytes g)"

text \<open>
  The \<open>n\<close> blocks that the loop of \<open>gamming\<close> writes from the synchro \<open>S\<close> and the bytes
  \<open>bs\<close> of the blocks: the counters are advanced before each block.
\<close>

fun gamma_blocks :: "cryptographer \<Rightarrow> nat \<Rightarrow> uint64 \<Rightarrow> uint8 list \<Rightarrow> uint8 list" where
  "gamma_blocks c 0 S bs = []"
| "gamma_blocks c (Suc n) S bs =
    le_bytes (le_word (take 8 bs) XOR cycle_32Z c (next_synchro S))
      @ gamma_blocks c n (next_synchro S) (drop 8 bs)"

text \<open>The body of the loop of \<open>gamming\<close>, with its local variables replaced by their values.\<close>

definition gamming_body ::
  "cryptographer \<Rightarrow> uint32 \<times> uint8 list \<times> uint32 \<times> uint32 \<times> uint64
    \<Rightarrow> error + uint32 \<times> uint8 list \<times> uint32 \<times> uint32 \<times> uint64" where
  "gamming_body c =
    (\<lambda>(i, d, S0, S1, S).
       case memcpy_from d (unat i) 8 of Inl e \<Rightarrow> Inl e | Inr block \<Rightarrow>
         (case memcpy_to d (unat i)
                 (block XOR cycle_32Z c (ucast (next_S0 S0) OR push_bit 32 (ucast (next_S1 S1)))) 8
          of Inl e \<Rightarrow> Inl e
           | Inr d \<Rightarrow> Inr (i + 8, d, next_S0 S0, next_S1 S1,
                            ucast (next_S0 S0) OR push_bit 32 (ucast (next_S1 S1)))))"

text \<open>The accumulator of \<open>imiIns\<close> after \<open>n\<close> blocks of the bytes \<open>bs\<close>, from \<open>S\<close>.\<close>

fun mac_acc :: "cryptographer \<Rightarrow> nat \<Rightarrow> uint64 \<Rightarrow> uint8 list \<Rightarrow> uint64" where
  "mac_acc c 0 S bs = S"
| "mac_acc c (Suc n) S bs = mac_acc c n (cycle_16Z c (S XOR le_word (take 8 bs))) (drop 8 bs)"

text \<open>A generator for the examples: it counts from its seed.\<close>

definition counting_srandom :: "uint32 \<Rightarrow> nat" where
  "counting_srandom seed = unat seed"

definition counting_random :: "nat \<Rightarrow> nat \<times> nat" where
  "counting_random g = (g, Suc g)"

text \<open>
  The number that the loop of \<open>isCurrentS\<close> counts: the indices \<open>i\<close> of \<open>0..63\<close> for which
  \<open>S & (1 << i)\<close> is not zero.
\<close>

definition counted_bits :: "(nat \<Rightarrow> uint32) \<Rightarrow> uint64 \<Rightarrow> nat" where
  "counted_bits wide S = length (filter (\<lambda>i. S AND shl_one wide i \<noteq> 0) [0..<64])"

text \<open>A call returns: it neither runs for ever nor leaves the buffer.\<close>

definition returns :: "(error + 'a) option \<Rightarrow> bool" where
  "returns x = (case x of Some (Inr r) \<Rightarrow> True | _ \<Rightarrow> False)"

section \<open>The halves of a block\<close>

lemma lo_join: "lo (join h l) = l"
  unfolding lo_def join_def
  by (rule bit_word_eqI) (auto simp: bit_simps)

lemma hi_join: "hi (join h l) = h"
  unfolding hi_def join_def
  by (rule bit_word_eqI) (auto simp: bit_simps dest: bit_imp_le_length)

lemma join_lo_hi: "join (hi d) (lo d) = d"
  unfolding hi_def lo_def join_def
  by (rule bit_word_eqI) (auto simp: bit_simps)

lemma low_mask_eq: "(0x00000000ffffffff :: uint64) = Bit_Operations.mask 32"
  by (simp add: mask_eq_exp_minus_1)

lemma high_mask_eq: "(0xffffffff00000000 :: uint64) = NOT (Bit_Operations.mask 32)"
  by (simp add: mask_eq_exp_minus_1)

lemma and_lo: "(ucast (d AND 0x00000000ffffffff) :: uint32) = lo d" for d :: uint64
  unfolding lo_def low_mask_eq
  by (rule bit_word_eqI) (auto simp: bit_simps)

lemma and_hi: "(ucast (drop_bit 32 (d AND 0xffffffff00000000)) :: uint32) = hi d" for d :: uint64
  unfolding hi_def high_mask_eq
  by (rule bit_word_eqI) (auto simp: bit_simps)

lemma upt2: "[0..<2] = [0, 1]"
  by (simp add: upt_rec)

lemma upt3: "[0..<3] = [0, 1, 2]"
  by (simp add: upt_rec)

lemma upt8: "[0..<8] = [0, 1, 2, 3, 4, 5, 6, 7]"
  by (simp add: upt_rec)

section \<open>The round is a Feistel step\<close>

lemma mainStep_feistel: "mainStep c d k = join (lo d) (round_f c k (lo d) XOR hi d)"
  unfolding mainStep_def round_f_def Let_def byteSize_def
  by (simp only: and_lo and_hi join_def mult_numeral_left_semiring_numeral numeral_times_numeral
      semiring_norm)

lemma swap_halves_join: "swap_halves d = join (lo d) (hi d)"
  unfolding swap_halves_def Let_def byteSize_def pow_def
  by (simp only: and_lo and_hi join_def mult_numeral_left_semiring_numeral numeral_times_numeral
      semiring_norm)

lemma swap_halves_twice: "swap_halves (swap_halves d) = d"
  by (simp add: swap_halves_join lo_join hi_join join_lo_hi)

lemma mainStep_swap_inverse:
  "mainStep c (swap_halves (mainStep c (swap_halves d) k)) k = d"
  by (simp add: mainStep_feistel swap_halves_join lo_join hi_join join_lo_hi flip: xor.assoc)

lemma mainStep_undo: "mainStep c (swap_halves (mainStep c d k)) k = swap_halves d"
  using mainStep_swap_inverse [of c "swap_halves d" k] by (simp add: swap_halves_twice)

lemma rounds_reversed:
  "foldl (mainStep c) (swap_halves (foldl (mainStep c) d ks)) (rev ks) = swap_halves d"
  by (induction ks arbitrary: d) (simp_all add: mainStep_undo)

lemma cycle_32Z_rounds: "cycle_32Z c d = swap_halves (foldl (mainStep c) d keys_32Z)"
  by (simp add: cycle_32Z_def keys_32Z_def upt3 del: upt.simps rev.simps)

lemma cycle_32R_rounds: "cycle_32R c d = swap_halves (foldl (mainStep c) d (rev keys_32Z))"
  by (simp add: cycle_32R_def keys_32Z_def upt3 del: upt.simps)

lemma cycle_32R_cycle_32Z: "cycle_32R c (cycle_32Z c d) = d"
  by (simp only: cycle_32Z_rounds cycle_32R_rounds rounds_reversed swap_halves_twice)

lemma cycle_32Z_cycle_32R: "cycle_32Z c (cycle_32R c d) = d"
  using rounds_reversed [of c d "rev keys_32Z"]
  by (simp only: cycle_32Z_rounds cycle_32R_rounds rev_rev_ident swap_halves_twice)

section \<open>Bytes and words\<close>

lemma bit_le_word:
  "bit (le_word bs) n \<longleftrightarrow> n < 64 \<and> n div 8 < length bs \<and> bit (bs ! (n div 8)) (n mod 8)"
proof (induction bs arbitrary: n)
  case Nil
  then show ?case by simp
next
  case (Cons b bs)
  show ?case
  proof (cases "n < 8")
    case True
    then show ?thesis by (simp add: bit_simps)
  next
    case False
    then have n: "8 \<le> n" by simp
    then have d: "(n - 8) div 8 = n div 8 - 1" "(n - 8) mod 8 = n mod 8" "0 < n div 8"
      by (simp_all add: le_mod_geq le_div_geq)
    then obtain q where q: "n div 8 = Suc q"
      by (cases "n div 8") auto
    with d have q': "(n - 8) div 8 = q"
      by simp
    have "bit (le_word (b # bs)) n \<longleftrightarrow> n < 64 \<and> bit (le_word bs) (n - 8)"
      using n False by (auto simp: bit_simps dest: bit_imp_le_length)
    also have "\<dots> \<longleftrightarrow> n < 64 \<and> q < length bs \<and> bit (bs ! q) (n mod 8)"
      using Cons.IH [of "n - 8"] q' d(2) by auto
    also have "\<dots> \<longleftrightarrow> n < 64 \<and> n div 8 < length (b # bs) \<and> bit ((b # bs) ! (n div 8)) (n mod 8)"
      using q by simp
    finally show ?thesis .
  qed
qed

lemma length_le_bytes: "length (le_bytes w) = 8"
  by (simp add: le_bytes_def)

lemma nth_le_bytes: "k < 8 \<Longrightarrow> le_bytes w ! k = ucast (drop_bit (8 * k) w)"
  by (simp add: le_bytes_def del: upt.simps)

lemma bit_nth_le_bytes:
  "k < 8 \<Longrightarrow> bit (le_bytes w ! k) m \<longleftrightarrow> m < 8 \<and> bit w (8 * k + m)"
  by (auto simp: nth_le_bytes bit_simps)

lemma le_word_le_bytes: "le_word (le_bytes w) = w"
proof (rule bit_word_eqI)
  fix n assume "n < LENGTH(64)"
  then have n: "n < 64" by simp
  then have k: "n div 8 < 8" by simp
  show "bit (le_word (le_bytes w)) n = bit w n"
    using n k by (simp add: bit_le_word length_le_bytes bit_nth_le_bytes)
qed

lemma nth_le_bytes_le_word:
  assumes "k < length bs" "length bs \<le> 8"
  shows "le_bytes (le_word bs) ! k = bs ! k"
proof (rule bit_word_eqI)
  fix m assume "m < LENGTH(8)"
  then have m: "m < 8" by simp
  have k: "k < 8" using assms by simp
  have "(8 * k + m) div 8 = k" "(8 * k + m) mod 8 = m" "8 * k + m < 64"
    using m k by auto
  then show "bit (le_bytes (le_word bs) ! k) m = bit (bs ! k) m"
    using m k assms by (simp add: bit_nth_le_bytes bit_le_word)
qed

lemma take_le_bytes_le_word:
  "length bs \<le> 8 \<Longrightarrow> take (length bs) (le_bytes (le_word bs)) = bs"
  by (rule nth_equalityI) (simp_all add: length_le_bytes nth_le_bytes_le_word)

lemma le_bytes_le_word: "length bs = 8 \<Longrightarrow> le_bytes (le_word bs) = bs"
  using take_le_bytes_le_word [of bs] by (simp add: length_le_bytes)

lemma nth_le_bytes_xor:
  "k < 8 \<Longrightarrow> le_bytes (a XOR b) ! k = le_bytes a ! k XOR le_bytes b ! k"
  by (rule bit_word_eqI) (auto simp: bit_nth_le_bytes bit_simps)

lemma le_bytes_xor: "le_bytes (a XOR b) = map2 (XOR) (le_bytes a) (le_bytes b)"
proof (rule nth_equalityI)
  show "length (le_bytes (a XOR b)) = length (map2 (XOR) (le_bytes a) (le_bytes b))"
    by (simp add: length_le_bytes)
next
  fix k assume "k < length (le_bytes (a XOR b))"
  then have k: "k < 8" by (simp add: length_le_bytes)
  show "le_bytes (a XOR b) ! k = map2 (XOR) (le_bytes a) (le_bytes b) ! k"
    using k by (simp add: length_le_bytes nth_le_bytes_xor)
qed

section \<open>Loops\<close>

lemma for_loop_exit: "\<not> cond s \<Longrightarrow> for_loop cond body s = Some (Inr s)"
  by (subst for_loop.simps) simp

lemma for_loop_step:
  "cond s \<Longrightarrow> body s = Inr s' \<Longrightarrow> for_loop cond body s = for_loop cond body s'"
  by (subst for_loop.simps) simp

lemma for_loop_fault:
  "cond s \<Longrightarrow> body s = Inl e \<Longrightarrow> for_loop cond body s = Some (Inl e)"
  by (subst for_loop.simps) simp

text \<open>
  A loop does not reach its exit from a state that satisfies an invariant under which the
  condition holds.
\<close>

lemma for_loop_no_exit:
  assumes enter: "\<And>s. I s \<Longrightarrow> cond s"
    and keep: "\<And>s s'. I s \<Longrightarrow> body s = Inr s' \<Longrightarrow> I s'"
    and start: "I s"
  shows "for_loop cond body s \<noteq> Some (Inr r)"
proof
  define P where "P = (\<lambda>(c :: 'a \<Rightarrow> bool) (b :: 'a \<Rightarrow> error + 'a) (s :: 'a) (y :: error + 'a).
      c = cond \<longrightarrow> b = body \<longrightarrow> I s \<longrightarrow> (\<forall>r. y \<noteq> Inr r))"
  have step: "P c b s y"
    if IH: "\<And>c b s y. loop c b s = Some y \<Longrightarrow> P c b s y"
      and eq: "(if c s then case b s of Inl e \<Rightarrow> Some (Inl e) | Inr s' \<Rightarrow> loop c b s'
                 else Some (Inr s)) = Some y"
    for loop c b s y
    unfolding P_def
  proof (intro impI allI notI)
    fix r assume h: "c = cond" "b = body" "I s" "y = Inr r"
    from h enter have cs: "cond s" by simp
    show False
    proof (cases "body s")
      case (Inl e)
      with eq h cs show False by simp
    next
      case (Inr s')
      with eq h cs have "loop cond body s' = Some (Inr r)" by simp
      then have "P cond body s' (Inr r)" by (rule IH)
      moreover from keep h Inr have "I s'" by blast
      ultimately show False by (simp add: P_def)
    qed
  qed
  assume returns: "for_loop cond body s = Some (Inr r)"
  have "P cond body s (Inr r)"
  proof (rule for_loop.raw_induct [where P = P])
    show "for_loop cond body s = Some (Inr r)"
      by (rule returns)
  qed (rule step)
  with start show False by (simp add: P_def)
qed

section \<open>The loop of \<open>simpleReplace\<close>\<close>

lemma length_map_blocks: "length (map_blocks f n bs) = 8 * n"
  by (induction n arbitrary: bs) (simp_all add: length_le_bytes)

lemma map_blocks_inverse:
  assumes "\<And>x. g (f x) = x" "8 * n \<le> length bs"
  shows "map_blocks g n (map_blocks f n bs) = take (8 * n) bs"
  using assms(2)
proof (induction n arbitrary: bs)
  case 0
  then show ?case by simp
next
  case (Suc n)
  then have len: "length (take 8 bs) = 8" and rest: "8 * n \<le> length (drop 8 bs)"
    by simp_all
  have "take (8 * Suc n) bs = take 8 bs @ take (8 * n) (drop 8 bs)"
    by (simp add: take_add [symmetric])
  then show ?case
    using Suc.IH [OF rest] len
    by (simp add: length_le_bytes le_word_le_bytes assms(1) le_bytes_le_word)
qed

lemma memcpy_from_app:
  "length blk \<le> 8 \<Longrightarrow>
    memcpy_from (pre @ blk @ post) (length pre) (length blk) = Inr (le_word blk)"
  by (simp add: memcpy_from_def)

lemma memcpy_to_app:
  "length blk \<le> 8 \<Longrightarrow>
    memcpy_to (pre @ blk @ post) (length pre) w (length blk)
      = Inr (pre @ take (length blk) (le_bytes w) @ post)"
  by (simp add: memcpy_to_def)

lemma unat_add8: "unat i + 8 \<le> unat sz \<Longrightarrow> unat (i + 8) = unat i + 8" for i sz :: uint32
proof -
  assume "unat i + 8 \<le> unat sz"
  moreover have "unat sz < 2 ^ 32" using unsigned_less [of sz] by simp
  ultimately show ?thesis by (simp add: unat_word_ariths)
qed


lemma simpleReplace_loop:
  fixes sz i :: uint32
  assumes "length pre = unat i" "length blks = 8 * n" "unat i + 8 * n = unat sz"
  shows "for_loop (\<lambda>(i, d). i < sz)
           (\<lambda>(i, d).
              case memcpy_from d (unat i) 8 of Inl e \<Rightarrow> Inl e | Inr block \<Rightarrow>
                (let block = f block
                 in case memcpy_to d (unat i) block 8 of Inl e \<Rightarrow> Inl e
                    | Inr d \<Rightarrow> Inr (i + 8, d)))
           (i, pre @ blks @ post)
         = Some (Inr (sz, pre @ map_blocks f n blks @ post))"
    (is "for_loop ?cond ?body _ = _")
  using assms
proof (induction n arbitrary: i pre blks)
  case 0
  then have "i = sz" by (simp add: word_unat_eq_iff)
  with 0 show ?case by (simp add: for_loop_exit)
next
  case (Suc n)
  define blk where "blk = take 8 blks"
  define rest where "rest = drop 8 blks"
  have blks: "blks = blk @ rest" and blk: "length blk = 8" and rest: "length rest = 8 * n"
    using Suc.prems by (simp_all add: blk_def rest_def)
  have lt: "i < sz"
    using Suc.prems by (simp add: word_less_nat_alt)
  have i8: "unat (i + 8) = unat i + 8"
    using Suc.prems by (intro unat_add8 [of i sz]) simp
  have rd: "memcpy_from (pre @ blk @ rest @ post) (unat i) 8 = Inr (le_word blk)"
    using memcpy_from_app [of blk pre "rest @ post"] blk Suc.prems(1) by simp
  have wr: "memcpy_to (pre @ blk @ rest @ post) (unat i) w 8 = Inr (pre @ le_bytes w @ rest @ post)"
    for w
    using memcpy_to_app [of blk pre "rest @ post" w] blk Suc.prems(1)
    by (simp add: length_le_bytes)
  have body: "?body (i, pre @ blks @ post)
      = Inr (i + 8, (pre @ le_bytes (f (le_word blk))) @ rest @ post)"
    by (simp add: blks rd wr)
  have "for_loop ?cond ?body (i, pre @ blks @ post)
      = for_loop ?cond ?body (i + 8, (pre @ le_bytes (f (le_word blk))) @ rest @ post)"
    by (rule for_loop_step) (use lt body in simp_all)
  also have "\<dots> = Some (Inr (sz, (pre @ le_bytes (f (le_word blk))) @ map_blocks f n rest @ post))"
    by (rule Suc.IH) (use Suc.prems i8 rest in \<open>simp_all add: length_le_bytes\<close>)
  finally show ?case
    by (simp add: blk_def rest_def)
qed

lemma simpleReplace_blocks:
  assumes "sz mod 8 = 0" "unat sz \<le> length d"
  shows "simpleReplace c d sz encoding =
    Some (Inr (True, map_blocks (\<lambda>b. if encoding then cycle_32Z c b else cycle_32R c b)
                       (unat sz div 8) (take (unat sz) d) @ drop (unat sz) d))"
proof -
  have "unat (sz mod 8) = unat sz mod 8"
    by (simp add: unat_mod_distrib)
  with assms(1) have "unat sz mod 8 = 0"
    by simp
  then have n: "unat (0 :: uint32) + 8 * (unat sz div 8) = unat sz"
    by (simp add: mod_0_imp_dvd)
  have len: "length (take (unat sz) d) = 8 * (unat sz div 8)"
    using assms(2) n by simp
  show ?thesis
    using simpleReplace_loop [of "[]" 0 "take (unat sz) d" "unat sz div 8" sz
        "\<lambda>b. if encoding then cycle_32Z c b else cycle_32R c b" "drop (unat sz) d", OF _ len n]
      assms(1)
    by (simp add: simpleReplace_def)
qed

section \<open>\<open>simpleReplace\<close>: status and round trip\<close>

lemma unat_mod8: "unat (sz mod 8) = unat sz mod 8" for sz :: uint32
  by (simp add: unat_mod_distrib)

lemma mod8_word_iff: "sz mod 8 = 0 \<longleftrightarrow> unat sz mod 8 = 0" for sz :: uint32
  using unat_mod8 [of sz] by (metis unat_0 word_unat_eq_iff)

text \<open>
  C8. \<open>simpleReplace\<close> returns \<open>false\<close> and leaves the buffer as it is when the size is
  not a multiple of 8, and returns \<open>true\<close> when it is (the buffer holding at least
  \<open>_size\<close> bytes); so \<open>false\<close> is returned exactly for the sizes that are not a multiple
  of 8.
\<close>

theorem simpleReplace_status:
  "(unat sz mod 8 \<noteq> 0 \<longrightarrow> simpleReplace c d sz encoding = Some (Inr (False, d))) \<and>
   (unat sz mod 8 = 0 \<and> unat sz \<le> length d \<longrightarrow>
      (\<exists>d'. simpleReplace c d sz encoding = Some (Inr (True, d'))))"
proof (intro conjI impI)
  assume "unat sz mod 8 \<noteq> 0"
  then show "simpleReplace c d sz encoding = Some (Inr (False, d))"
    by (simp add: simpleReplace_def mod8_word_iff)
next
  assume "unat sz mod 8 = 0 \<and> unat sz \<le> length d"
  then show "\<exists>d'. simpleReplace c d sz encoding = Some (Inr (True, d'))"
    by (simp add: simpleReplace_blocks mod8_word_iff)
qed

theorem simpleReplace_status_witness:
  "unat (12 :: uint32) mod 8 \<noteq> 0 \<and>
   simpleReplace example_cr [1, 2, 3, 4, 5, 6, 7, 8, 9, 10, 11, 12] 12 True
     = Some (Inr (False, [1, 2, 3, 4, 5, 6, 7, 8, 9, 10, 11, 12])) \<and>
   unat (8 :: uint32) mod 8 = 0 \<and> unat (8 :: uint32) \<le> length [1, 2, 3, 4, 5, 6, 7, 8 :: uint8] \<and>
   (\<exists>d'. simpleReplace example_cr [1, 2, 3, 4, 5, 6, 7, 8] 8 True = Some (Inr (True, d')))"
  using simpleReplace_status [of 12 example_cr "[1, 2, 3, 4, 5, 6, 7, 8, 9, 10, 11, 12]" True]
    simpleReplace_status [of 8 example_cr "[1, 2, 3, 4, 5, 6, 7, 8]" True]
  by simp

text \<open>
  C1. For every key and table, \<open>cycle_32R\<close> and \<open>cycle_32Z\<close> undo each other on every
  block, and \<open>simpleReplace\<close> with \<open>_encoding = false\<close> applied to the result of \<open>simpleReplace\<close>
  with \<open>_encoding = true\<close> gives back the buffer, for every size that is a multiple of 8.
\<close>

theorem simpleReplace_round_trip:
  assumes "unat sz mod 8 = 0" "unat sz \<le> length d"
  shows "cycle_32R c (cycle_32Z c b) = b \<and> cycle_32Z c (cycle_32R c b) = b \<and>
    (\<exists>d'. simpleReplace c d sz True = Some (Inr (True, d')) \<and>
          simpleReplace c d' sz False = Some (Inr (True, d)))"
proof -
  define n where "n = unat sz div 8"
  define d' where "d' = map_blocks (cycle_32Z c) n (take (unat sz) d) @ drop (unat sz) d"
  have sz: "sz mod 8 = 0" and n: "8 * n = unat sz"
    using assms(1) by (simp_all add: mod8_word_iff n_def mod_0_imp_dvd)
  have len: "length (map_blocks (cycle_32Z c) n (take (unat sz) d)) = unat sz"
    by (simp add: length_map_blocks n)
  have enc: "simpleReplace c d sz True = Some (Inr (True, d'))"
    using simpleReplace_blocks [OF sz assms(2), of c True] by (simp add: d'_def n_def)
  have "unat sz \<le> length d'"
    using assms(2) len by (simp add: d'_def)
  then have "simpleReplace c d' sz False = Some (Inr (True,
      map_blocks (cycle_32R c) n (take (unat sz) d') @ drop (unat sz) d'))"
    using simpleReplace_blocks [OF sz, of d' c False] by (simp add: n_def)
  moreover have "take (unat sz) d' = map_blocks (cycle_32Z c) n (take (unat sz) d)"
    and "drop (unat sz) d' = drop (unat sz) d"
    using len by (simp_all add: d'_def)
  moreover have "map_blocks (cycle_32R c) n (map_blocks (cycle_32Z c) n (take (unat sz) d))
      = take (8 * n) (take (unat sz) d)"
    by (rule map_blocks_inverse) (use assms(2) n in \<open>simp_all add: cycle_32R_cycle_32Z\<close>)
  ultimately have "simpleReplace c d' sz False = Some (Inr (True, d))"
    by (simp add: n)
  with enc show ?thesis
    by (auto simp: cycle_32R_cycle_32Z cycle_32Z_cycle_32R)
qed

theorem simpleReplace_round_trip_witness:
  "unat (8 :: uint32) mod 8 = 0 \<and> unat (8 :: uint32) \<le> length [1, 2, 3, 4, 5, 6, 7, 8 :: uint8] \<and>
   cycle_32R example_cr (cycle_32Z example_cr 0) = 0 \<and>
   cycle_32Z example_cr (cycle_32R example_cr 0) = 0 \<and>
   (\<exists>d'. simpleReplace example_cr [1, 2, 3, 4, 5, 6, 7, 8] 8 True = Some (Inr (True, d')) \<and>
         simpleReplace example_cr d' 8 False = Some (Inr (True, [1, 2, 3, 4, 5, 6, 7, 8])))"
  using simpleReplace_round_trip [of 8 "[1, 2, 3, 4, 5, 6, 7, 8]" example_cr 0]
  by simp

section \<open>The round against its specification\<close>

lemma round_sum:
  fixes N1 key :: uint32
  defines "S \<equiv> (ucast (((ucast N1 :: uint64) + ucast key) mod (pow2 (4 * byteSize) - 1)) :: uint32)"
  shows "unat S = (unat N1 + unat key) mod (2 ^ 32 - 1)"
proof -
  have b: "unat N1 < 2 ^ 32" "unat key < 2 ^ 32"
    using unsigned_less [of N1] unsigned_less [of key] by simp_all
  have "unat ((ucast N1 :: uint64) + ucast key) = unat N1 + unat key"
    using b by (simp add: unat_word_ariths unsigned_ucast_eq take_bit_nat_def)
  moreover have "unat (pow2 (4 * byteSize) - 1) = 2 ^ 32 - 1"
    by (simp add: pow2_def byteSize_def)
  ultimately have m: "unat ((((ucast N1 :: uint64) + ucast key) mod (pow2 (4 * byteSize) - 1)))
      = (unat N1 + unat key) mod (2 ^ 32 - 1)"
    by (simp add: unat_mod_distrib)
  have "(unat N1 + unat key) mod (2 ^ 32 - 1) < (2 :: nat) ^ 32"
    by (rule less_trans [of _ "2 ^ 32 - 1"]) simp_all
  with m show ?thesis
    by (simp add: S_def unsigned_ucast_eq take_bit_nat_def)
qed

lemma mask_arr_nth: "i < 8 \<Longrightarrow> mask_arr ! i = push_bit (4 * i) (Bit_Operations.mask 4)"
proof -
  assume "i < 8"
  then have "i \<in> {0, 1, 2, 3, 4, 5, 6, 7}" by auto
  then show ?thesis by (auto simp: mask_arr_def mask_eq_exp_minus_1)
qed

lemma round_nibble:
  fixes S :: uint32
  assumes "i < 8"
  shows "unat (ucast (drop_bit (i * 4) (S AND mask_arr ! i)) :: uint8) = spec_nibble (unat S) i"
proof -
  have "(ucast (drop_bit (i * 4) (S AND mask_arr ! i)) :: uint8)
      = ucast (take_bit 4 (drop_bit (4 * i) S))"
    using assms
    by (intro bit_word_eqI) (auto simp: mask_arr_nth bit_simps mult.commute)
  also have "unat \<dots> = take_bit 4 (drop_bit (4 * i) (unat S))"
    by (simp add: unsigned_ucast_eq unsigned_take_bit_eq unat_drop_bit_eq)
  also have "\<dots> = spec_nibble (unat S) i"
    by (simp add: spec_nibble_def take_bit_nat_def drop_bit_nat_def power_mult)
  finally show ?thesis .
qed

lemma bit_nibble_bound:
  fixes v :: uint8
  assumes "v \<le> 15" "bit v m"
  shows "m < 4"
proof -
  have "unat v < 2 ^ 4"
    using assms(1) by (simp add: word_le_nat_alt)
  then have "take_bit 4 (unat v) = unat v"
    by (simp add: take_bit_nat_eq_self)
  moreover have "bit (unat v) m"
    using assms(2) by (simp add: bit_unsigned_iff)
  ultimately show ?thesis
    by (metis bit_take_bit_iff)
qed

lemma foldr_or_init:
  fixes a :: "nat \<Rightarrow> uint32"
  shows "foldr (\<lambda>i w. a i OR w) xs w0 = foldr (\<lambda>i w. a i OR w) xs 0 OR w0"
  by (induction xs) (simp_all add: or.assoc)

lemma reassemble_sum:
  fixes v :: "nat \<Rightarrow> uint8"
  assumes "\<And>i. i < n \<Longrightarrow> v i \<le> 15"
  shows "foldl (\<lambda>tmp i. tmp + push_bit (i * 4) (ucast (v i) :: uint32)) 0 [0..<n]
           = foldr (\<lambda>i w. push_bit (4 * i) (ucast (v i)) OR w) [0..<n] 0
         \<and> (\<forall>m. bit (foldl (\<lambda>tmp i. tmp + push_bit (i * 4) (ucast (v i) :: uint32)) 0 [0..<n]) m
                \<longrightarrow> m < 4 * n)"
  using assms
proof (induction n)
  case 0
  then show ?case by simp
next
  case (Suc n)
  let ?A = "foldl (\<lambda>tmp i. tmp + push_bit (i * 4) (ucast (v i) :: uint32)) 0 [0..<n]"
  let ?a = "push_bit (n * 4) (ucast (v n) :: uint32)"
  from Suc have IH: "?A = foldr (\<lambda>i w. push_bit (4 * i) (ucast (v i)) OR w) [0..<n] 0"
    and low: "\<And>m. bit ?A m \<Longrightarrow> m < 4 * n"
    by simp_all
  have high: "4 * n \<le> m \<and> m < 4 * Suc n" if "bit ?a m" for m
  proof -
    from that have "n * 4 \<le> m" and "bit (v n) (m - n * 4)"
      by (auto simp: bit_simps)
    with bit_nibble_bound [of "v n" "m - n * 4"] Suc.prems [of n] show ?thesis
      by simp
  qed
  have "?A + ?a = ?A OR ?a"
    by (rule disjunctive_add) (use low high in fastforce)
  then have sum: "foldl (\<lambda>tmp i. tmp + push_bit (i * 4) (ucast (v i) :: uint32)) 0 [0..<Suc n]
      = ?A OR ?a"
    by simp
  have "foldr (\<lambda>i w. push_bit (4 * i) (ucast (v i)) OR w) [0..<Suc n] (0 :: uint32) = ?A OR ?a"
    using foldr_or_init [of "\<lambda>i. push_bit (4 * i) (ucast (v i))" "[0..<n]" "?a"] IH
    by (simp add: mult.commute)
  moreover have "m < 4 * Suc n" if "bit (?A OR ?a) m" for m
    using that low [of m] high [of m] by (auto simp: bit_or_iff)
  ultimately show ?case
    using sum by simp
qed

lemma rotate_left_11: "drop_bit (4 * byteSize - 11) t OR push_bit 11 t = word_rotl 11 t"
  for t :: uint32
proof (rule bit_word_eqI)
  fix n assume "n < LENGTH(32)"
  then have n: "n < 32" by simp
  have l: "bit (drop_bit (4 * byteSize - 11) t OR push_bit 11 t) n
      \<longleftrightarrow> bit t (n + 21) \<or> (11 \<le> n \<and> bit t (n - 11))"
    using n by (simp add: byteSize_def bit_or_iff bit_drop_bit_eq bit_push_bit_iff add.commute)
  have r: "bit (word_rotl 11 t) n \<longleftrightarrow> bit t ((n + 21) mod 32)"
    using n by (simp add: bit_word_rotl_iff)
  show "bit (drop_bit (4 * byteSize - 11) t OR push_bit 11 t) n = bit (word_rotl 11 t) n"
  proof (cases "n < 11")
    case True
    then show ?thesis by (simp add: l r)
  next
    case False
    then have "(n + 21) mod 32 = n - 11"
      using n by (simp add: mod_if)
    moreover have "\<not> bit t (n + 21)"
      using False bit_imp_le_length [of t "n + 21"] by auto
    ultimately show ?thesis
      using False by (simp add: l r)
  qed
qed


lemma spec_nibble_less: "spec_nibble x i < 16"
  by (simp add: spec_nibble_def)

lemma table_in_rangeD: "table_in_range c \<Longrightarrow> i < 8 \<Longrightarrow> j < 16 \<Longrightarrow> m_replace_table c i j \<le> 15"
  by (simp add: table_in_range_def list_all_iff)

lemma round_f_as_specified:
  assumes "table_in_range c"
  shows "round_f c k N1 = word_rotl 11 (spec_reassemble
           (\<lambda>i. m_replace_table c i (spec_nibble ((unat N1 + unat (m_key c k)) mod (2 ^ 32 - 1)) i)))"
proof -
  define S where "S = (ucast (((ucast N1 :: uint64) + ucast (m_key c k))
      mod (pow2 (4 * byteSize) - 1)) :: uint32)"
  define v where "v = (\<lambda>i. m_replace_table c i (spec_nibble (unat S) i))"
  have S: "unat S = (unat N1 + unat (m_key c k)) mod (2 ^ 32 - 1)"
    unfolding S_def by (rule round_sum)
  have "foldl (\<lambda>tmp i.
            let Si = (ucast (drop_bit (i * 4) (S AND mask_arr ! i)) :: uint8)
            in tmp + push_bit (i * 4) (ucast (m_replace_table c i (unat Si)) :: uint32))
          (0 :: uint32) [0..<8]
      = foldl (\<lambda>tmp i. tmp + push_bit (i * 4) (ucast (v i) :: uint32)) 0 [0..<8]"
  proof (rule foldl_cong)
    fix a :: uint32 and x :: nat
    assume "x \<in> set [0..<8]"
    then have "x < 8"
      by simp
    then show "(let Si = (ucast (drop_bit (x * 4) (S AND mask_arr ! x)) :: uint8)
                in a + push_bit (x * 4) (ucast (m_replace_table c x (unat Si)) :: uint32))
        = a + push_bit (x * 4) (ucast (v x) :: uint32)"
      unfolding Let_def v_def by (simp only: round_nibble)
  qed (rule refl)+
  also have "\<dots> = spec_reassemble v"
    unfolding spec_reassemble_def
    using reassemble_sum [of 8 v] assms
    by (simp add: v_def table_in_rangeD spec_nibble_less del: upt.simps)
  finally show ?thesis
    unfolding round_f_def Let_def S_def [symmetric]
    by (simp only: rotate_left_11 v_def S)
qed

text \<open>
  C2. For a table whose entries all lie in \<open>[0, 15]\<close>, \<open>mainStep\<close> on the block with low
  half \<open>N1\<close> and high half \<open>N2\<close> returns \<open>(N1 << 32) | (R XOR N2)\<close>, where \<open>R\<close> is the
  rotation by 11 bits to the left of the value whose nibbles are the substituted nibbles
  of \<open>(N1 + Key[k]) mod (2^32 - 1)\<close>, computed in exact arithmetic.
\<close>

theorem mainStep_as_specified:
  assumes "table_in_range c"
  shows "mainStep c d k = spec_mainStep c (ucast d) (ucast (drop_bit 32 d)) k"
  using round_f_as_specified [OF assms, of k "lo d"]
  by (simp add: mainStep_feistel spec_mainStep_def join_def lo_def hi_def)

theorem mainStep_as_specified_witness:
  "table_in_range example_cr \<and>
   mainStep example_cr 5 0 = spec_mainStep example_cr (ucast (5 :: uint64)) (ucast (drop_bit 32 (5 :: uint64))) 0"
proof -
  have "table_in_range example_cr"
    by (simp add: table_in_range_def example_cr_def upt_rec word_le_nat_alt unat_of_nat)
  then show ?thesis
    using mainStep_as_specified [of example_cr 5 0] by simp
qed

section \<open>Sizes above \<open>2^32 - 8\<close>\<close>

lemma dvd8_add8: "8 dvd unat i \<Longrightarrow> 8 dvd unat (i + 8)" for i :: uint32
proof -
  assume a: "8 dvd unat i"
  have "(8 :: nat) dvd 2 ^ 32" by simp
  then have "8 dvd (unat i + 8) mod 2 ^ 32 \<longleftrightarrow> 8 dvd unat i + 8"
    by (rule dvd_mod_iff)
  with a show ?thesis by (simp add: unat_word_ariths)
qed

lemma dvd8_less: "8 dvd unat j \<Longrightarrow> 0xFFFFFFF9 \<le> sz \<Longrightarrow> j < sz" for j sz :: uint32
proof -
  assume a: "8 dvd unat j" and b: "0xFFFFFFF9 \<le> sz"
  have "unat j < 4294967296" using unsigned_less [of j] by simp
  with a have "unat j \<le> 4294967288" by presburger
  moreover from b have "4294967289 \<le> unat sz" by (simp add: word_le_nat_alt)
  ultimately show ?thesis by (simp add: word_less_nat_alt)
qed

text \<open>
  The loops of \<open>gamming\<close>, \<open>gammingWF\<close> and \<open>imiIns\<close> run while \<open>i + 8 < _size\<close>, where
  \<open>i + 8\<close> is a \<open>uint32\<close>: for \<open>_size > 2^32 - 8\<close> the sum wraps around before it
  reaches \<open>_size\<close> and the loop has no exit.
\<close>

lemma wrapping_loop_no_exit:
  fixes sz :: uint32
  assumes "0xFFFFFFF9 \<le> sz"
    and cond: "\<And>s. cond s \<longleftrightarrow> counter s + 8 < sz"
    and body: "\<And>s s'. body s = Inr s' \<Longrightarrow> counter s' = counter s + 8"
    and start: "8 dvd unat (counter s)"
  shows "for_loop cond body s \<noteq> Some (Inr r)"
proof (rule for_loop_no_exit [where I = "\<lambda>s. 8 dvd unat (counter s)"])
  show "cond s" if "8 dvd unat (counter s)" for s
    using that assms(1) by (simp add: cond dvd8_add8 dvd8_less)
  show "8 dvd unat (counter s')" if "8 dvd unat (counter s)" "body s = Inr s'" for s s'
    using that by (simp add: body dvd8_add8)
  show "8 dvd unat (counter s)"
    by (rule start)
qed

lemma case_loop_no_return:
  assumes "\<And>s. L \<noteq> Some (Inr s)"
  shows "(case L of None \<Rightarrow> None | Some (Inl e) \<Rightarrow> Some (Inl e) | Some (Inr s) \<Rightarrow> F s)
    \<noteq> Some (Inr r)"
  using assms by (cases L) (auto split: sum.splits)

lemma gamming_no_return:
  assumes "0xFFFFFFF9 \<le> sz"
  shows "gamming c d sz S \<noteq> Some (Inr r)"
  unfolding gamming_def Let_def
  by (rule case_loop_no_return, rule wrapping_loop_no_exit [where counter = fst, OF assms])
    (auto split: prod.splits sum.splits)

lemma gammingWF_no_return:
  assumes "0xFFFFFFF9 \<le> sz"
  shows "gammingWF c d sz S encoding \<noteq> Some (Inr r)"
  unfolding gammingWF_def Let_def
  by (rule case_loop_no_return, rule wrapping_loop_no_exit [where counter = fst, OF assms])
    (auto split: prod.splits sum.splits)

lemma imiIns_no_return:
  assumes "0xFFFFFFF9 \<le> sz"
  shows "imiIns c d sz \<noteq> Some (Inr r)"
  unfolding imiIns_def
  by (rule case_loop_no_return, rule wrapping_loop_no_exit [where counter = fst, OF assms])
    (auto split: prod.splits sum.splits)

section \<open>The loop and the tail of \<open>gammingWF\<close>\<close>

lemma length_wf_blocks: "length (wf_blocks c e n S bs) = 8 * n"
  by (induction n arbitrary: S bs) (simp_all add: length_le_bytes Let_def)

lemma gammingWF_loop:
  fixes sz i :: uint32
  assumes "length pre = unat i" "length blks = 8 * n" "unat i + 8 * n + t = unat sz"
    and "1 \<le> t" "t \<le> 8" "unat sz \<le> 2 ^ 32 - 8"
  shows "for_loop (\<lambda>(i, d, S). i + 8 < sz)
           (\<lambda>(i, d, S).
              case memcpy_from d (unat i) 8 of Inl e \<Rightarrow> Inl e | Inr block \<Rightarrow>
                (let tmp_block = block;
                     block = block XOR cycle_32Z c S
                 in case memcpy_to d (unat i) block 8 of Inl e \<Rightarrow> Inl e
                    | Inr d \<Rightarrow> Inr (i + 8, d, if encoding then block else tmp_block)))
           (i, pre @ blks @ post, S)
         = Some (Inr (of_nat (unat i + 8 * n), pre @ wf_blocks c encoding n S blks @ post,
                      wf_sync c encoding n S blks))"
    (is "for_loop ?cond ?body _ = _")
  using assms(1-3)
proof (induction n arbitrary: i pre blks S)
  case 0
  have "unat i + 8 < 2 ^ 32"
    using 0 assms(4-6) by simp
  then have "unat (i + 8) = unat i + 8"
    by (simp add: unat_word_ariths)
  then have "\<not> i + 8 < sz"
    using 0 assms(5) by (simp add: word_less_nat_alt)
  with 0 show ?case
    by (simp add: for_loop_exit)
next
  case (Suc n)
  define blk where "blk = take 8 blks"
  define rest where "rest = drop 8 blks"
  define y where "y = le_word blk XOR cycle_32Z c S"
  define S' where "S' = (if encoding then y else le_word blk)"
  have blks: "blks = blk @ rest" and blk: "length blk = 8" and rest: "length rest = 8 * n"
    using Suc.prems by (simp_all add: blk_def rest_def)
  have i8: "unat (i + 8) = unat i + 8"
    using Suc.prems by (intro unat_add8 [of i sz]) simp
  then have lt: "i + 8 < sz"
    using Suc.prems assms(4) by (simp add: word_less_nat_alt)
  have rd: "memcpy_from (pre @ blk @ rest @ post) (unat i) 8 = Inr (le_word blk)"
    using memcpy_from_app [of blk pre "rest @ post"] blk Suc.prems(1) by simp
  have wr: "memcpy_to (pre @ blk @ rest @ post) (unat i) w 8 = Inr (pre @ le_bytes w @ rest @ post)"
    for w
    using memcpy_to_app [of blk pre "rest @ post" w] blk Suc.prems(1)
    by (simp add: length_le_bytes)
  have body: "?body (i, pre @ blks @ post, S) = Inr (i + 8, (pre @ le_bytes y) @ rest @ post, S')"
    by (simp add: blks rd wr y_def S'_def Let_def)
  have "for_loop ?cond ?body (i, pre @ blks @ post, S)
      = for_loop ?cond ?body (i + 8, (pre @ le_bytes y) @ rest @ post, S')"
    by (rule for_loop_step) (use lt body in simp_all)
  also have "\<dots> = Some (Inr (of_nat (unat (i + 8) + 8 * n),
      (pre @ le_bytes y) @ wf_blocks c encoding n S' rest @ post, wf_sync c encoding n S' rest))"
    by (rule Suc.IH) (use Suc.prems i8 rest in \<open>simp_all add: length_le_bytes\<close>)
  also have "wf_blocks c encoding n S' rest = drop 8 (wf_blocks c encoding (Suc n) S blks)"
    by (simp add: blk_def rest_def y_def S'_def Let_def length_le_bytes)
  also have "wf_sync c encoding n S' rest = wf_sync c encoding (Suc n) S blks"
    by (simp add: blk_def rest_def y_def S'_def Let_def)
  also have "(pre @ le_bytes y) @ drop 8 (wf_blocks c encoding (Suc n) S blks) @ post
      = pre @ wf_blocks c encoding (Suc n) S blks @ post"
    by (simp add: blk_def rest_def y_def S'_def Let_def length_le_bytes)
  also have "unat (i + 8) + 8 * n = unat i + 8 * Suc n"
    by (simp add: i8)
  finally show ?case .
qed


lemma take_le_bytes_xor:
  assumes "length bs \<le> 8"
  shows "take (length bs) (le_bytes (le_word bs XOR g)) = xor_bytes bs g"
proof -
  have "take (length bs) (le_bytes (le_word bs XOR g))
      = map2 (XOR) (take (length bs) (le_bytes (le_word bs))) (take (length bs) (le_bytes g))"
    by (simp add: le_bytes_xor take_map take_zip)
  also have "\<dots> = map2 (XOR) bs (take (length bs) (le_bytes g))"
    using assms by (simp add: take_le_bytes_le_word)
  also have "zip bs (take (length bs) (le_bytes g)) = take (length bs) (zip bs (le_bytes g))"
    by (simp add: take_zip)
  also have "\<dots> = zip bs (le_bytes g)"
    using assms by (simp add: length_le_bytes)
  finally show ?thesis
    by (simp add: xor_bytes_def)
qed

lemma length_xor_bytes: "length bs \<le> 8 \<Longrightarrow> length (xor_bytes bs g) = length bs"
  by (simp add: xor_bytes_def length_le_bytes)

lemma xor_bytes_twice:
  assumes "length bs \<le> 8"
  shows "xor_bytes (xor_bytes bs g) g = bs"
proof (rule nth_equalityI)
  show "length (xor_bytes (xor_bytes bs g) g) = length bs"
    using assms by (simp add: length_xor_bytes)
next
  fix k assume "k < length (xor_bytes (xor_bytes bs g) g)"
  then have "k < length bs" "k < 8"
    using assms by (simp_all add: length_xor_bytes)
  then show "xor_bytes (xor_bytes bs g) g ! k = bs ! k"
    by (simp add: xor_bytes_def length_le_bytes xor.assoc)
qed

lemma le_bytes_xor_block:
  "length blk = 8 \<Longrightarrow> le_bytes (le_word blk XOR g) = xor_bytes blk g"
  using take_le_bytes_xor [of blk g] by (simp add: length_le_bytes)

lemma split_buffer: "a + b = m \<Longrightarrow> d = take a d @ take b (drop a d) @ drop m d"
proof -
  assume "a + b = m"
  then have "drop b (drop a d) = drop m d"
    by (simp add: add.commute)
  then have "take b (drop a d) @ drop m d = drop a d"
    by (metis append_take_drop_id)
  then show ?thesis
    by simp
qed

lemma gamma_tail_app:
  fixes sz i :: uint32
  assumes "length pre = unat i" "unat i + length tb = unat sz" "1 \<le> length tb" "length tb \<le> 8"
  shows "gamma_tail c sz i (pre @ tb @ post) S = Inr (pre @ xor_bytes tb (cycle_32Z c S) @ post)"
proof -
  have le: "i \<le> sz" and ne: "i \<noteq> sz"
    using assms by (auto simp: word_le_nat_alt)
  then have t: "unat (sz - i) = length tb"
    using assms(2) by (simp add: unat_sub)
  then have nz: "sz - i \<noteq> 0"
    using assms(3) by auto
  show ?thesis
    unfolding gamma_tail_def Let_def
    using ne nz t assms(1,4) memcpy_from_app [of tb pre post]
      memcpy_to_app [of tb pre post "le_word tb XOR cycle_32Z c S"]
    by (simp add: take_le_bytes_xor)
qed

lemma gamma_tail_empty: "gamma_tail c sz sz d S = Inr d"
  by (simp add: gamma_tail_def)

text \<open>The passes through the loop and the length of the tail, for a size up to \<open>2^32 - 8\<close>.\<close>

lemma loop_blocks_tail:
  assumes "sz \<noteq> 0"
  shows "8 * loop_blocks sz + (unat sz - 8 * loop_blocks sz) = unat sz"
    and "1 \<le> unat sz - 8 * loop_blocks sz" and "unat sz - 8 * loop_blocks sz \<le> 8"
proof -
  have "0 < unat sz"
    using assms by (simp add: unat_gt_0)
  then show "8 * loop_blocks sz + (unat sz - 8 * loop_blocks sz) = unat sz"
    and "1 \<le> unat sz - 8 * loop_blocks sz" and "unat sz - 8 * loop_blocks sz \<le> 8"
    unfolding loop_blocks_def by presburger+
qed

lemma gammingWF_result:
  assumes "unat sz \<le> length d" "unat sz \<le> 2 ^ 32 - 8"
  shows "gammingWF c d sz S encoding =
    Some (Inr (True,
      wf_blocks c encoding (loop_blocks sz) S (take (8 * loop_blocks sz) d)
        @ xor_bytes (take (unat sz - 8 * loop_blocks sz) (drop (8 * loop_blocks sz) d))
            (cycle_32Z c (wf_sync c encoding (loop_blocks sz) S (take (8 * loop_blocks sz) d)))
        @ drop (unat sz) d,
      wf_sync c encoding (loop_blocks sz) S (take (8 * loop_blocks sz) d)))"
proof (cases "sz = 0")
  case True
  then show ?thesis
    by (simp add: gammingWF_def for_loop_exit gamma_tail_empty loop_blocks_def xor_bytes_def)
next
  case False
  define n where "n = loop_blocks sz"
  define t where "t = unat sz - 8 * n"
  define blks where "blks = take (8 * n) d"
  define tb where "tb = take t (drop (8 * n) d)"
  have nt: "8 * n + t = unat sz" "1 \<le> t" "t \<le> 8"
    using loop_blocks_tail [OF False] by (simp_all add: n_def t_def)
  have d: "d = blks @ tb @ drop (unat sz) d"
    unfolding blks_def tb_def by (rule split_buffer) (rule nt(1))
  have len: "length blks = 8 * n" "length tb = t"
    using assms(1) nt(1) by (simp_all add: blks_def tb_def)
  have i: "unat (of_nat (8 * n) :: uint32) = 8 * n"
    using nt(1) by (intro le_unat_uoi [of _ sz]) simp
  have loop: "for_loop (\<lambda>(i, d, S). i + 8 < sz)
           (\<lambda>(i, d, S).
              case memcpy_from d (unat i) 8 of Inl e \<Rightarrow> Inl e | Inr block \<Rightarrow>
                (let tmp_block = block;
                     block = block XOR cycle_32Z c S
                 in case memcpy_to d (unat i) block 8 of Inl e \<Rightarrow> Inl e
                    | Inr d \<Rightarrow> Inr (i + 8, d, if encoding then block else tmp_block)))
           (0, [] @ blks @ (tb @ drop (unat sz) d), S)
      = Some (Inr (of_nat (unat (0 :: uint32) + 8 * n),
          [] @ wf_blocks c encoding n S blks @ (tb @ drop (unat sz) d), wf_sync c encoding n S blks))"
    by (rule gammingWF_loop [where t = t]) (use nt len assms(2) in simp_all)
  have tail: "gamma_tail c sz (of_nat (8 * n))
      (wf_blocks c encoding n S blks @ tb @ drop (unat sz) d) (wf_sync c encoding n S blks)
      = Inr (wf_blocks c encoding n S blks
          @ xor_bytes tb (cycle_32Z c (wf_sync c encoding n S blks)) @ drop (unat sz) d)"
    by (rule gamma_tail_app) (use nt len i in \<open>simp_all add: length_wf_blocks\<close>)
  have "gammingWF c d sz S encoding = gammingWF c (blks @ tb @ drop (unat sz) d) sz S encoding"
    using d by simp
  also have "\<dots> = Some (Inr (True, wf_blocks c encoding n S blks
          @ xor_bytes tb (cycle_32Z c (wf_sync c encoding n S blks)) @ drop (unat sz) d,
        wf_sync c encoding n S blks))"
    unfolding gammingWF_def using loop tail by simp
  finally show ?thesis
    by (simp add: n_def t_def blks_def tb_def)
qed

lemma wf_round_trip:
  assumes "length bs = 8 * n"
  shows "wf_blocks c False n S (wf_blocks c True n S bs) = bs
    \<and> wf_sync c False n S (wf_blocks c True n S bs) = wf_sync c True n S bs"
  using assms
proof (induction n arbitrary: S bs)
  case 0
  then show ?case by simp
next
  case (Suc n)
  define y where "y = le_word (take 8 bs) XOR cycle_32Z c S"
  have rest: "length (drop 8 bs) = 8 * n" and blk: "length (take 8 bs) = 8"
    using Suc.prems by simp_all
  have "y XOR cycle_32Z c S = le_word (take 8 bs)"
    by (simp add: y_def xor.assoc)
  then show ?case
    using Suc.IH [OF rest, of y] blk
    by (simp add: Let_def length_le_bytes le_word_le_bytes le_bytes_le_word flip: y_def)
qed

text \<open>
  Up to \<open>2^32 - 8\<close> bytes, \<open>gammingWF\<close> with \<open>_encoding = false\<close> and the synchro of the
  first call restores the buffer that \<open>gammingWF\<close> with \<open>_encoding = true\<close> transformed.
\<close>

lemma gammingWF_round_trip_bounded:
  assumes "unat sz \<le> length d" "unat sz \<le> 2 ^ 32 - 8"
  shows "\<exists>d' S1 S2. gammingWF c d sz S True = Some (Inr (True, d', S1))
    \<and> gammingWF c d' sz S False = Some (Inr (True, d, S2))"
proof -
  define n where "n = loop_blocks sz"
  define t where "t = unat sz - 8 * n"
  define blks where "blks = take (8 * n) d"
  define tb where "tb = take t (drop (8 * n) d)"
  define S1 where "S1 = wf_sync c True n S blks"
  define d' where "d' = wf_blocks c True n S blks @ xor_bytes tb (cycle_32Z c S1) @ drop (unat sz) d"
  have nt: "8 * n + t = unat sz" "t \<le> 8"
    using loop_blocks_tail [of sz] by (cases "sz = 0"; simp add: n_def t_def loop_blocks_def)+
  have len: "length blks = 8 * n" "length tb = t"
    using assms(1) nt(1) by (simp_all add: blks_def tb_def)
  have d: "d = blks @ tb @ drop (unat sz) d"
    unfolding blks_def tb_def by (rule split_buffer) (rule nt(1))
  have enc: "gammingWF c d sz S True = Some (Inr (True, d', S1))"
    using gammingWF_result [OF assms, of c S True]
    by (simp add: d'_def S1_def n_def t_def blks_def tb_def)
  have len': "unat sz \<le> length d'"
    using assms(1) nt len by (simp add: d'_def length_wf_blocks length_xor_bytes)
  have parts: "take (8 * n) d' = wf_blocks c True n S blks"
    "take t (drop (8 * n) d') = xor_bytes tb (cycle_32Z c S1)"
    "drop (unat sz) d' = drop (unat sz) d"
    using nt len by (simp_all add: d'_def length_wf_blocks length_xor_bytes flip: nt(1))
  have rt: "wf_blocks c False n S (wf_blocks c True n S blks) = blks"
    "wf_sync c False n S (wf_blocks c True n S blks) = S1"
    using wf_round_trip [OF len(1), of c S] by (simp_all add: S1_def)
  have "gammingWF c d' sz S False = Some (Inr (True, blks @ tb @ drop (unat sz) d, S1))"
    using gammingWF_result [OF len' assms(2), of c S False] nt(2) len(2)
    by (simp add: parts rt xor_bytes_twice flip: n_def t_def)
  with enc d show ?thesis
    by auto
qed

section \<open>The feedback of \<open>gammingWF\<close>\<close>

lemma block_at_drop8: "block_at (drop 8 bs) M = block_at bs (Suc M)"
  by (simp add: block_at_def add.commute)

lemma wf_step:
  assumes "N < n" "8 * n \<le> length bs"
  shows "take 8 (drop (8 * N) (wf_blocks c e n S bs))
      = le_bytes (block_at bs N XOR cycle_32Z c (wf_sync c e N S bs))
    \<and> wf_sync c e (Suc N) S bs
      = (if e then block_at bs N XOR cycle_32Z c (wf_sync c e N S bs) else block_at bs N)"
  using assms
proof (induction N arbitrary: n S bs)
  case 0
  then obtain n' where n: "n = Suc n'"
    by (cases n) auto
  show ?case
    by (simp add: n Let_def block_at_def length_le_bytes)
next
  case (Suc M)
  then obtain n' where n: "n = Suc n'"
    by (cases n) auto
  define S1 where "S1 = (if e then le_word (take 8 bs) XOR cycle_32Z c S else le_word (take 8 bs))"
  have IH: "take 8 (drop (8 * M) (wf_blocks c e n' S1 (drop 8 bs)))
      = le_bytes (block_at (drop 8 bs) M XOR cycle_32Z c (wf_sync c e M S1 (drop 8 bs)))
    \<and> wf_sync c e (Suc M) S1 (drop 8 bs)
      = (if e then block_at (drop 8 bs) M XOR cycle_32Z c (wf_sync c e M S1 (drop 8 bs))
         else block_at (drop 8 bs) M)"
    by (rule Suc.IH) (use Suc.prems n in simp_all)
  have blocks: "drop (8 * Suc M) (wf_blocks c e n S bs) = drop (8 * M) (wf_blocks c e n' S1 (drop 8 bs))"
    by (simp add: n Let_def S1_def length_le_bytes)
  have sync: "wf_sync c e (Suc K) S bs = wf_sync c e K S1 (drop 8 bs)" for K
    by (simp add: Let_def S1_def)
  show ?case
    unfolding blocks sync using IH by (simp only: block_at_drop8)
qed

lemma block_at_prefix: "8 * Suc N \<le> length xs \<Longrightarrow> block_at (xs @ ys) N = block_at xs N"
  by (simp add: block_at_def)

lemma block_at_take: "8 * Suc N \<le> m \<Longrightarrow> block_at (take m d) N = block_at d N"
  by (simp add: block_at_def take_drop min_def)

lemma take8_block_prefix:
  "8 * Suc N \<le> length xs \<Longrightarrow> take 8 (drop (8 * N) (xs @ ys)) = take 8 (drop (8 * N) xs)"
  by simp

text \<open>
  C4, as the code has it. For a buffer of up to \<open>2^32 - 8\<close> bytes \<open>gammingWF\<close> returns, and
  every step \<open>N\<close> (the last one with the bytes that are left) XORs its bytes with
  \<open>cycle_32Z\<close> of its synchro, which is \<open>S\<close> for the first step and for every later step
  the ciphertext block of the step before: the block that step wrote when encrypting and
  the block it read when decrypting. When the size is not a multiple of 8, the synchro
  after the call is the ciphertext block of the last complete block (\<open>S\<close> when there is
  none).
\<close>

theorem gammingWF_feedback:
  assumes "unat sz \<le> length d" "unat sz \<le> 2 ^ 32 - 8"
  shows "\<exists>d' S'. gammingWF c d sz S encoding = Some (Inr (True, d', S')) \<and>
    (\<forall>N. 8 * N < unat sz \<longrightarrow>
       take (min 8 (unat sz - 8 * N)) (drop (8 * N) d')
         = xor_bytes (take (min 8 (unat sz - 8 * N)) (drop (8 * N) d))
             (cycle_32Z c (if N = 0 then S
                           else if encoding then block_at d' (N - 1) else block_at d (N - 1)))) \<and>
    (unat sz mod 8 \<noteq> 0 \<longrightarrow>
       S' = (if unat sz < 8 then S
             else if encoding then block_at d' (unat sz div 8 - 1)
             else block_at d (unat sz div 8 - 1)))"
proof -
  define n where "n = loop_blocks sz"
  define t where "t = unat sz - 8 * n"
  define blks where "blks = take (8 * n) d"
  define tb where "tb = take t (drop (8 * n) d)"
  define W where "W = wf_blocks c encoding n S blks"
  define sync where "sync = (\<lambda>N. wf_sync c encoding N S blks)"
  define d' where "d' = W @ xor_bytes tb (cycle_32Z c (sync n)) @ drop (unat sz) d"
  have nt: "8 * n + t = unat sz" "t \<le> 8" "sz \<noteq> 0 \<Longrightarrow> 1 \<le> t"
    using loop_blocks_tail [of sz] by (cases "sz = 0"; simp add: n_def t_def loop_blocks_def)+
  have len: "length blks = 8 * n" "length tb = t" "length W = 8 * n"
    using assms(1) nt(1) by (auto simp: blks_def tb_def W_def length_wf_blocks)
  have res: "gammingWF c d sz S encoding = Some (Inr (True, d', sync n))"
    using gammingWF_result [OF assms, of c S encoding]
    by (simp add: d'_def sync_def W_def n_def t_def blks_def tb_def)
  have sync_Suc: "sync (Suc N) = (if encoding then block_at d' N else block_at d N)"
    and block: "take 8 (drop (8 * N) d') = xor_bytes (take 8 (drop (8 * N) d)) (cycle_32Z c (sync N))"
    if "N < n" for N
  proof -
    have N: "8 * Suc N \<le> 8 * n"
      using that by simp
    have st: "take 8 (drop (8 * N) W) = le_bytes (block_at blks N XOR cycle_32Z c (sync N))"
      "sync (Suc N) = (if encoding then block_at blks N XOR cycle_32Z c (sync N) else block_at blks N)"
      using wf_step [OF that, of blks c encoding S] len(1) by (simp_all add: W_def sync_def)
    have b: "block_at blks N = block_at d N"
      unfolding blks_def using N by (rule block_at_take)
    have tk: "take 8 (drop (8 * N) blks) = take 8 (drop (8 * N) d)"
      unfolding blks_def using N by (simp add: take_drop min_def)
    have l8: "length (take 8 (drop (8 * N) blks)) = 8"
      using N len(1) by simp
    have W: "take 8 (drop (8 * N) d') = take 8 (drop (8 * N) W)"
      unfolding d'_def using N len(3) by (intro take8_block_prefix) simp
    have "block_at d' N = block_at W N"
      unfolding d'_def using N len(3) by (intro block_at_prefix) simp
    also have "\<dots> = block_at blks N XOR cycle_32Z c (sync N)"
      by (simp add: block_at_def st(1) le_word_le_bytes)
    finally show "sync (Suc N) = (if encoding then block_at d' N else block_at d N)"
      using st(2) b by simp
    have "take 8 (drop (8 * N) d') = le_bytes (le_word (take 8 (drop (8 * N) blks)) XOR cycle_32Z c (sync N))"
      using W st(1) by (simp add: block_at_def)
    also have "\<dots> = xor_bytes (take 8 (drop (8 * N) blks)) (cycle_32Z c (sync N))"
      using l8 by (rule le_bytes_xor_block)
    finally show "take 8 (drop (8 * N) d') = xor_bytes (take 8 (drop (8 * N) d)) (cycle_32Z c (sync N))"
      by (simp add: tk)
  qed
  have sync_eq: "sync N = (if N = 0 then S
      else if encoding then block_at d' (N - 1) else block_at d (N - 1))" if "N \<le> n" for N
  proof (cases N)
    case 0
    then show ?thesis by (simp add: sync_def)
  next
    case (Suc M)
    with that sync_Suc [of M] show ?thesis by simp
  qed
  have step: "take (min 8 (unat sz - 8 * N)) (drop (8 * N) d')
      = xor_bytes (take (min 8 (unat sz - 8 * N)) (drop (8 * N) d))
          (cycle_32Z c (if N = 0 then S
                        else if encoding then block_at d' (N - 1) else block_at d (N - 1)))"
    if "8 * N < unat sz" for N
  proof (cases "N < n")
    case True
    then have "min 8 (unat sz - 8 * N) = 8"
      using nt(1) by auto
    with block [OF True] sync_eq [of N] True show ?thesis
      by simp
  next
    case False
    have "sz \<noteq> 0"
      using that by auto
    with nt that False have N: "N = n"
      by auto
    have "min 8 (unat sz - 8 * N) = t"
      using nt(1,2) N by auto
    moreover have "take t (drop (8 * n) d') = xor_bytes tb (cycle_32Z c (sync n))"
      using len nt(2) by (simp add: d'_def length_xor_bytes)
    ultimately show ?thesis
      using sync_eq [of n] N by (simp add: tb_def)
  qed
  have final: "sync n = (if unat sz < 8 then S
             else if encoding then block_at d' (unat sz div 8 - 1)
             else block_at d (unat sz div 8 - 1))" if "unat sz mod 8 \<noteq> 0"
  proof -
    have "t \<noteq> 8"
    proof
      assume "t = 8"
      with nt(1) have "unat sz = 8 * Suc n"
        by simp
      then have "unat sz mod 8 = 0"
        by (simp only: mod_mult_self1_is_0)
      with that show False
        by simp
    qed
    with nt(2) have t: "t < 8"
      by simp
    have "(8 * n + t) div 8 = n"
      using t by simp
    then have n: "unat sz div 8 = n"
      by (simp add: nt(1))
    have "unat sz < 8 \<longleftrightarrow> n = 0"
      using nt(1) t by auto
    then show ?thesis
      using sync_eq [of n] by (simp add: n)
  qed
  show ?thesis
  proof (rule exI [of _ d'], rule exI [of _ "sync n"], intro conjI allI impI)
    show "gammingWF c d sz S encoding = Some (Inr (True, d', sync n))"
      by (rule res)
  next
    fix N assume "8 * N < unat sz"
    then show "take (min 8 (unat sz - 8 * N)) (drop (8 * N) d')
      = xor_bytes (take (min 8 (unat sz - 8 * N)) (drop (8 * N) d))
          (cycle_32Z c (if N = 0 then S
                        else if encoding then block_at d' (N - 1) else block_at d (N - 1)))"
      by (rule step)
  next
    assume "unat sz mod 8 \<noteq> 0"
    then show "sync n = (if unat sz < 8 then S
             else if encoding then block_at d' (unat sz div 8 - 1)
             else block_at d (unat sz div 8 - 1))"
      by (rule final)
  qed
qed

theorem gammingWF_feedback_witness:
  "unat (20 :: uint32) \<le> length (replicate 20 (0 :: uint8)) \<and> unat (20 :: uint32) \<le> 2 ^ 32 - 8 \<and>
   (\<exists>d' S'. gammingWF example_cr (replicate 20 0) 20 5 False = Some (Inr (True, d', S')) \<and>
      take (min 8 (unat (20 :: uint32) - 8 * 2)) (drop (8 * 2) d')
        = xor_bytes (take (min 8 (unat (20 :: uint32) - 8 * 2)) (drop (8 * 2) (replicate 20 0)))
            (cycle_32Z example_cr (block_at (replicate 20 0) (2 - 1))) \<and>
      S' = block_at (replicate 20 0) (unat (20 :: uint32) div 8 - 1))"
proof -
  have h: "unat (20 :: uint32) \<le> length (replicate 20 (0 :: uint8))" "unat (20 :: uint32) \<le> 2 ^ 32 - 8"
    by simp_all
  from gammingWF_feedback [OF h, of example_cr 5 False]
  obtain d' S' where r: "gammingWF example_cr (replicate 20 0) 20 5 False = Some (Inr (True, d', S'))"
    and s: "\<forall>N. 8 * N < unat (20 :: uint32) \<longrightarrow>
       take (min 8 (unat (20 :: uint32) - 8 * N)) (drop (8 * N) d')
         = xor_bytes (take (min 8 (unat (20 :: uint32) - 8 * N)) (drop (8 * N) (replicate 20 0)))
             (cycle_32Z example_cr (if N = 0 then 5
                           else if False then block_at d' (N - 1) else block_at (replicate 20 0) (N - 1)))"
    and f: "unat (20 :: uint32) mod 8 \<noteq> 0 \<longrightarrow>
       S' = (if unat (20 :: uint32) < 8 then 5
             else if False then block_at d' (unat (20 :: uint32) div 8 - 1)
             else block_at (replicate 20 0) (unat (20 :: uint32) div 8 - 1))"
    by blast
  from s [rule_format, of 2] f r h show ?thesis
    by simp
qed

section \<open>An example computed\<close>

lemma cycle_32Z_example_0: "cycle_32Z example_cr 0 = 0x29A3C4DA34002B8F"
  by (simp add: cycle_32Z_rounds keys_32Z_def upt8 swap_halves_def pow_def mainStep_def
      example_cr_def byteSize_def pow2_def mask_arr_def Let_def del: upt.simps)

lemma cycle_32Z_inj: "cycle_32Z c x = cycle_32Z c y \<Longrightarrow> x = y"
  by (metis cycle_32R_cycle_32Z)

lemma xor_bytes_inj:
  assumes "length b = 8" "xor_bytes b g = xor_bytes b h"
  shows "g = h"
proof -
  have "le_bytes (le_word b XOR g) = le_bytes (le_word b XOR h)"
    using assms by (simp add: le_bytes_xor_block)
  then have "le_word (le_bytes (le_word b XOR g)) = le_word (le_bytes (le_word b XOR h))"
    by simp
  then have "le_word b XOR g = le_word b XOR h"
    by (simp only: le_word_le_bytes)
  then have "le_word b XOR (le_word b XOR g) = le_word b XOR (le_word b XOR h)"
    by simp
  then show ?thesis
    by (simp flip: xor.assoc)
qed

lemma le_bytes_example: "le_bytes 0x29A3C4DA34002B8F = [143, 43, 0, 52, 218, 196, 163, 41]"
  by (simp add: le_bytes_def upt8 del: upt.simps)

lemma not_returns: "(\<And>r. x \<noteq> Some (Inr r)) \<Longrightarrow> returns x = False"
  by (auto simp: returns_def split: option.splits sum.splits)

text \<open>
  C4 as stated fails on a 16-byte buffer that is decrypted with the synchro 0, the key
  \<open>1..8\<close> and the table \<open>table[i][j] = j\<close>: the first block, all zero, is recovered as
  \<open>143, 43, 0, 52, 218, 196, 163, 41\<close>; the second block is not XORed with \<open>cycle_32Z\<close> of
  that recovered block, and the synchro after the call, 0, is neither the last block
  read nor the last block written. On a buffer of \<open>2^32 - 1\<close> bytes the call does not
  return.
\<close>

theorem gammingWF_feedback_counterexample:
  "gammingWF example_cr [0, 0, 0, 0, 0, 0, 0, 0, 1, 0, 0, 0, 0, 0, 0, 0] 16 0 False
     = Some (Inr (True, [143, 43, 0, 52, 218, 196, 163, 41, 142, 43, 0, 52, 218, 196, 163, 41], 0)) \<and>
   [142, 43, 0, 52, 218, 196, 163, 41]
     \<noteq> xor_bytes [1, 0, 0, 0, 0, 0, 0, 0]
         (cycle_32Z example_cr (block_at [143, 43, 0, 52, 218, 196, 163, 41, 142, 43, 0, 52, 218, 196, 163, 41] 0)) \<and>
   (0 :: uint64) \<noteq> block_at [0, 0, 0, 0, 0, 0, 0, 0, 1, 0, 0, 0, 0, 0, 0, 0] 1 \<and>
   (0 :: uint64) \<noteq> block_at [143, 43, 0, 52, 218, 196, 163, 41, 142, 43, 0, 52, 218, 196, 163, 41] 1 \<and>
   returns (gammingWF example_cr (replicate 4294967295 0) 0xFFFFFFFF 0 False) = False"
proof -
  let ?d = "[0, 0, 0, 0, 0, 0, 0, 0, 1, 0, 0, 0, 0, 0, 0, 0] :: uint8 list"
  have no_return: "returns (gammingWF example_cr (replicate 4294967295 0) 0xFFFFFFFF 0 False) = False"
    by (rule not_returns, rule gammingWF_no_return) simp
  have blocks: "loop_blocks 16 = 1"
    by (simp add: loop_blocks_def)
  have run: "gammingWF example_cr ?d 16 0 False
     = Some (Inr (True, [143, 43, 0, 52, 218, 196, 163, 41, 142, 43, 0, 52, 218, 196, 163, 41], 0))"
    using gammingWF_result [of 16 ?d example_cr 0 False]
    by (simp add: blocks cycle_32Z_example_0 le_bytes_example xor_bytes_def)
  have first: "block_at [143, 43, 0, 52, 218, 196, 163, 41, 142, 43, 0, 52, 218, 196, 163, 41] 0
      = 0x29A3C4DA34002B8F"
    using le_word_le_bytes [of "0x29A3C4DA34002B8F"]
    by (simp add: block_at_def le_bytes_example)
  have second: "[142, 43, 0, 52, 218, 196, 163, 41]
      = xor_bytes [1, 0, 0, 0, 0, 0, 0, 0] (cycle_32Z example_cr 0)"
    by (simp add: cycle_32Z_example_0 le_bytes_example xor_bytes_def)
  have "xor_bytes [1, 0, 0, 0, 0, 0, 0, 0] (cycle_32Z example_cr 0)
      \<noteq> xor_bytes [1, 0, 0, 0, 0, 0, 0, 0] (cycle_32Z example_cr 0x29A3C4DA34002B8F)"
  proof
    assume "xor_bytes [1, 0, 0, 0, 0, 0, 0, 0] (cycle_32Z example_cr 0)
      = xor_bytes [1, 0, 0, 0, 0, 0, 0, 0] (cycle_32Z example_cr 0x29A3C4DA34002B8F)"
    then have "cycle_32Z example_cr 0 = cycle_32Z example_cr 0x29A3C4DA34002B8F"
      by (rule xor_bytes_inj [rotated]) simp
    then have "(0 :: uint64) = 0x29A3C4DA34002B8F"
      by (rule cycle_32Z_inj)
    then show False
      by simp
  qed
  with second have used: "[142, 43, 0, 52, 218, 196, 163, 41]
      \<noteq> xor_bytes [1, 0, 0, 0, 0, 0, 0, 0] (cycle_32Z example_cr 0x29A3C4DA34002B8F)"
    by simp
  have last_read: "(0 :: uint64) \<noteq> block_at ?d 1"
    by (simp add: block_at_def)
  have last_written:
    "(0 :: uint64) \<noteq> block_at [143, 43, 0, 52, 218, 196, 163, 41, 142, 43, 0, 52, 218, 196, 163, 41] 1"
    by (simp add: block_at_def)
  show ?thesis
    using run used last_read last_written no_return by (simp only: first simp_thms)
qed

text \<open>
  C5 at the size \<open>2^32 - 1\<close>: whatever the key, the table, the buffer, the synchro and
  the direction, the call of \<open>gammingWF\<close> does not return (the loop either leaves the
  buffer or runs for ever), so the buffer is not reconstructed.
\<close>

theorem gammingWF_max_size_no_return:
  "gammingWF c d 0xFFFFFFFF S encoding \<noteq> Some (Inr r)"
  by (rule gammingWF_no_return) simp

section \<open>The loop and the tail of \<open>gamming\<close>\<close>

lemma length_gamma_blocks: "length (gamma_blocks c n S bs) = 8 * n"
  by (induction n arbitrary: S bs) (simp_all add: length_le_bytes)

lemma next_synchro_halves:
  "lo (next_synchro S) = next_S0 (lo S)" "hi (next_synchro S) = next_S1 (hi S)"
  using lo_join [of "next_S1 (hi S)" "next_S0 (lo S)"] hi_join [of "next_S1 (hi S)" "next_S0 (lo S)"]
  by (simp_all add: next_synchro_def join_def or.commute)

lemma gamming_loop:
  fixes sz i :: uint32
  assumes "length pre = unat i" "length blks = 8 * n" "unat i + 8 * n + t = unat sz"
    and "1 \<le> t" "t \<le> 8" "unat sz \<le> 2 ^ 32 - 8"
  shows "for_loop (\<lambda>(i, d, S0, S1, S). i + 8 < sz)
           (gamming_body c)
           (i, pre @ blks @ post, lo S, hi S, S)
         = Some (Inr (of_nat (unat i + 8 * n), pre @ gamma_blocks c n S blks @ post,
                      lo ((next_synchro ^^ n) S), hi ((next_synchro ^^ n) S), (next_synchro ^^ n) S))"
    (is "for_loop ?cond ?body _ = _")
  using assms(1-3)
proof (induction n arbitrary: i pre blks S)
  case 0
  have "unat i + 8 < 2 ^ 32"
    using 0 assms(4-6) by simp
  then have "unat (i + 8) = unat i + 8"
    by (simp add: unat_word_ariths)
  then have "\<not> i + 8 < sz"
    using 0 assms(5) by (simp add: word_less_nat_alt)
  with 0 show ?case
    by (simp add: for_loop_exit)
next
  case (Suc n)
  define blk where "blk = take 8 blks"
  define rest where "rest = drop 8 blks"
  define S' where "S' = next_synchro S"
  define y where "y = le_word blk XOR cycle_32Z c S'"
  have blks: "blks = blk @ rest" and blk: "length blk = 8" and rest: "length rest = 8 * n"
    using Suc.prems by (simp_all add: blk_def rest_def)
  have i8: "unat (i + 8) = unat i + 8"
    using Suc.prems by (intro unat_add8 [of i sz]) simp
  then have lt: "i + 8 < sz"
    using Suc.prems assms(4) by (simp add: word_less_nat_alt)
  have rd: "memcpy_from (pre @ blk @ rest @ post) (unat i) 8 = Inr (le_word blk)"
    using memcpy_from_app [of blk pre "rest @ post"] blk Suc.prems(1) by simp
  have wr: "memcpy_to (pre @ blk @ rest @ post) (unat i) w 8 = Inr (pre @ le_bytes w @ rest @ post)"
    for w
    using memcpy_to_app [of blk pre "rest @ post" w] blk Suc.prems(1)
    by (simp add: length_le_bytes)
  have S': "ucast (next_S0 (lo S)) OR push_bit 32 (ucast (next_S1 (hi S)) :: uint64) = S'"
    by (simp add: S'_def next_synchro_def)
  have body: "?body (i, pre @ blks @ post, lo S, hi S, S)
      = Inr (i + 8, (pre @ le_bytes y) @ rest @ post, lo S', hi S', S')"
    unfolding gamming_body_def
    by (simp add: blks rd wr y_def S' S'_def next_synchro_halves)
  have "for_loop ?cond ?body (i, pre @ blks @ post, lo S, hi S, S)
      = for_loop ?cond ?body (i + 8, (pre @ le_bytes y) @ rest @ post, lo S', hi S', S')"
    by (rule for_loop_step) (use lt body in simp_all)
  also have "\<dots> = Some (Inr (of_nat (unat (i + 8) + 8 * n),
      (pre @ le_bytes y) @ gamma_blocks c n S' rest @ post,
      lo ((next_synchro ^^ n) S'), hi ((next_synchro ^^ n) S'), (next_synchro ^^ n) S'))"
    by (rule Suc.IH) (use Suc.prems i8 rest in \<open>simp_all add: length_le_bytes\<close>)
  also have "(pre @ le_bytes y) @ gamma_blocks c n S' rest @ post
      = pre @ gamma_blocks c (Suc n) S blks @ post"
    by (simp add: blk_def rest_def y_def S'_def)
  also have "(next_synchro ^^ n) S' = (next_synchro ^^ Suc n) S"
    by (simp add: S'_def funpow_swap1)
  also have "unat (i + 8) + 8 * n = unat i + 8 * Suc n"
    by (simp add: i8)
  finally show ?case .
qed


lemma gamming_unfold:
  "gamming c d sz S =
    (case for_loop (\<lambda>(i, d, S0, S1, S). i + 8 < sz) (gamming_body c)
            (0, d, lo (cycle_32Z c S), hi (cycle_32Z c S), cycle_32Z c S)
     of None \<Rightarrow> None
      | Some (Inl e) \<Rightarrow> Some (Inl e)
      | Some (Inr (i, d, S0, S1, S)) \<Rightarrow>
          (case gamma_tail c sz i d S of Inl e \<Rightarrow> Some (Inl e)
           | Inr d \<Rightarrow> Some (Inr (True, d, S))))"
  unfolding gamming_def Let_def byteSize_def gamming_body_def next_S0_def next_S1_def
  by (simp only: and_lo and_hi mult_numeral_left_semiring_numeral numeral_times_numeral
      semiring_norm)

lemma gamming_result:
  assumes "unat sz \<le> length d" "unat sz \<le> 2 ^ 32 - 8"
  shows "gamming c d sz S =
    Some (Inr (True,
      gamma_blocks c (loop_blocks sz) (cycle_32Z c S) (take (8 * loop_blocks sz) d)
        @ xor_bytes (take (unat sz - 8 * loop_blocks sz) (drop (8 * loop_blocks sz) d))
            (cycle_32Z c ((next_synchro ^^ loop_blocks sz) (cycle_32Z c S)))
        @ drop (unat sz) d,
      (next_synchro ^^ loop_blocks sz) (cycle_32Z c S)))"
proof (cases "sz = 0")
  case True
  then show ?thesis
    unfolding gamming_unfold
    by (simp add: for_loop_exit gamma_tail_empty loop_blocks_def xor_bytes_def)
next
  case False
  define n where "n = loop_blocks sz"
  define t where "t = unat sz - 8 * n"
  define blks where "blks = take (8 * n) d"
  define tb where "tb = take t (drop (8 * n) d)"
  define S1 where "S1 = cycle_32Z c S"
  define Sn where "Sn = (next_synchro ^^ n) S1"
  have nt: "8 * n + t = unat sz" "1 \<le> t" "t \<le> 8"
    using loop_blocks_tail [OF False] by (simp_all add: n_def t_def)
  have d: "d = blks @ tb @ drop (unat sz) d"
    unfolding blks_def tb_def by (rule split_buffer) (rule nt(1))
  have len: "length blks = 8 * n" "length tb = t"
    using assms(1) nt(1) by (auto simp: blks_def tb_def)
  have i: "unat (of_nat (8 * n) :: uint32) = 8 * n"
    using nt(1) by (intro le_unat_uoi [of _ sz]) simp
  have loop: "for_loop (\<lambda>(i, d, S0, S1, S). i + 8 < sz)
           (gamming_body c)
           (0, [] @ blks @ (tb @ drop (unat sz) d), lo S1, hi S1, S1)
      = Some (Inr (of_nat (unat (0 :: uint32) + 8 * n),
          [] @ gamma_blocks c n S1 blks @ (tb @ drop (unat sz) d), lo Sn, hi Sn, Sn))"
    unfolding Sn_def
    by (rule gamming_loop [where t = t]) (use nt len assms(2) in simp_all)
  have tail: "gamma_tail c sz (of_nat (8 * n)) (gamma_blocks c n S1 blks @ tb @ drop (unat sz) d) Sn
      = Inr (gamma_blocks c n S1 blks @ xor_bytes tb (cycle_32Z c Sn) @ drop (unat sz) d)"
    by (rule gamma_tail_app) (use nt len i in \<open>simp_all add: length_gamma_blocks\<close>)
  have "gamming c d sz S = gamming c (blks @ tb @ drop (unat sz) d) sz S"
    using d by simp
  also have "\<dots> = Some (Inr (True,
      gamma_blocks c n S1 blks @ xor_bytes tb (cycle_32Z c Sn) @ drop (unat sz) d, Sn))"
    unfolding gamming_unfold S1_def [symmetric]
    using loop tail by simp
  finally show ?thesis
    by (simp add: n_def t_def blks_def tb_def S1_def Sn_def)
qed

lemma gamma_blocks_twice:
  "length bs = 8 * n \<Longrightarrow> gamma_blocks c n S (gamma_blocks c n S bs) = bs"
proof (induction n arbitrary: S bs)
  case 0
  then show ?case by simp
next
  case (Suc n)
  have rest: "length (drop 8 bs) = 8 * n" and blk: "length (take 8 bs) = 8"
    using Suc.prems by simp_all
  show ?case
    using Suc.IH [OF rest, of "next_synchro S"] blk
    by (simp add: length_le_bytes le_word_le_bytes le_bytes_le_word xor.assoc)
qed

text \<open>
  Up to \<open>2^32 - 8\<close> bytes, a second call of \<open>gamming\<close> with the synchro of the first call
  restores the buffer.
\<close>

lemma gamming_round_trip_bounded:
  assumes "unat sz \<le> length d" "unat sz \<le> 2 ^ 32 - 8"
  shows "\<exists>d' S1 S2. gamming c d sz S = Some (Inr (True, d', S1))
    \<and> gamming c d' sz S = Some (Inr (True, d, S2))"
proof -
  define n where "n = loop_blocks sz"
  define t where "t = unat sz - 8 * n"
  define blks where "blks = take (8 * n) d"
  define tb where "tb = take t (drop (8 * n) d)"
  define S1 where "S1 = cycle_32Z c S"
  define Sn where "Sn = (next_synchro ^^ n) S1"
  define d' where "d' = gamma_blocks c n S1 blks @ xor_bytes tb (cycle_32Z c Sn) @ drop (unat sz) d"
  have nt: "8 * n + t = unat sz" "t \<le> 8"
    using loop_blocks_tail [of sz] by (cases "sz = 0"; simp add: n_def t_def loop_blocks_def)+
  have len: "length blks = 8 * n" "length tb = t"
    using assms(1) nt(1) by (auto simp: blks_def tb_def)
  have d: "d = blks @ tb @ drop (unat sz) d"
    unfolding blks_def tb_def by (rule split_buffer) (rule nt(1))
  have enc: "gamming c d sz S = Some (Inr (True, d', Sn))"
    using gamming_result [OF assms, of c S]
    by (simp add: d'_def S1_def Sn_def n_def t_def blks_def tb_def)
  have len': "unat sz \<le> length d'"
    using assms(1) nt len by (simp add: d'_def length_gamma_blocks length_xor_bytes)
  have parts: "take (8 * n) d' = gamma_blocks c n S1 blks"
    "take t (drop (8 * n) d') = xor_bytes tb (cycle_32Z c Sn)"
    "drop (unat sz) d' = drop (unat sz) d"
    using nt len by (simp_all add: d'_def length_gamma_blocks length_xor_bytes flip: nt(1))
  have "gamming c d' sz S = Some (Inr (True, blks @ tb @ drop (unat sz) d, Sn))"
    using gamming_result [OF len' assms(2), of c S] nt(2) len
    by (simp add: parts gamma_blocks_twice xor_bytes_twice flip: n_def t_def S1_def Sn_def)
  with enc d show ?thesis
    by auto
qed

lemma xor_bytes_zero: "xor_bytes [0, 0, 0, 0, 0, 0, 0, 0] g = le_bytes g"
  using le_bytes_xor_block [of "[0, 0, 0, 0, 0, 0, 0, 0]" g] by simp

text \<open>
  C3 on 16 bytes. The first block goes through the loop, which advances the counters
  once; the second and last block goes through the tail, which uses the synchro as the
  loop left it. Both blocks are XORed with the same 8 bytes: on a buffer of zeros the
  two halves of the result are equal, for every key, table and synchro.
\<close>

theorem gamming_reuses_keystream:
  "gamming c [0, 0, 0, 0, 0, 0, 0, 0, 0, 0, 0, 0, 0, 0, 0, 0] 16 S
     = Some (Inr (True,
         le_bytes (cycle_32Z c (next_synchro (cycle_32Z c S)))
           @ le_bytes (cycle_32Z c (next_synchro (cycle_32Z c S))),
         next_synchro (cycle_32Z c S)))"
proof -
  have "loop_blocks 16 = 1"
    by (simp add: loop_blocks_def)
  then show ?thesis
    using gamming_result [of 16 "[0, 0, 0, 0, 0, 0, 0, 0, 0, 0, 0, 0, 0, 0, 0, 0]" c S]
    by (simp add: xor_bytes_zero)
qed

text \<open>
  With 8 bytes or fewer no counter is advanced at all: the only step uses the synchro
  after its first pass through \<open>cycle_32Z\<close>.
\<close>

lemma gamming_single_block:
  "gamming c [0, 0, 0, 0, 0, 0, 0, 0] 8 S
     = Some (Inr (True, le_bytes (cycle_32Z c (cycle_32Z c S)), cycle_32Z c S))"
proof -
  have "loop_blocks 8 = 0"
    by (simp add: loop_blocks_def)
  then show ?thesis
    using gamming_result [of 8 "[0, 0, 0, 0, 0, 0, 0, 0]" c S]
    by (simp add: xor_bytes_zero)
qed

text \<open>
  The second counter: \<open>S1 + C2 - 1\<close> is a \<open>uint32\<close> sum and wraps modulo \<open>2^32\<close> before
  it is reduced modulo \<open>2^32 - 1\<close>; from \<open>0xFFFFFFFF\<close> the next value is \<open>0x1010103\<close>,
  where exact arithmetic gives \<open>0x1010104\<close>.
\<close>

lemma next_S1_wraps: "next_S1 0xFFFFFFFF = 0x1010103"
  by (simp add: next_S1_def pow2_def)

text \<open>
  C6 at the size \<open>2^32 - 1\<close>: whatever the key, the table, the buffer and the synchro,
  the call of \<open>gamming\<close> does not return, so a second call does not restore the buffer.
\<close>

theorem gamming_max_size_no_return:
  "gamming c d 0xFFFFFFFF S \<noteq> Some (Inr r)"
  by (rule gamming_no_return) simp

section \<open>The loop and the tail of \<open>imiIns\<close>\<close>

lemma memcpy_from_in_range:
  "n \<le> 8 \<Longrightarrow> i + n \<le> length d \<Longrightarrow> memcpy_from d i n = Inr (le_word (take n (drop i d)))"
  by (simp add: memcpy_from_def)

lemma imiIns_loop:
  fixes sz i :: uint32
  assumes "unat i + 8 * n + t = unat sz"
    and "1 \<le> t" "t \<le> 8" "unat sz \<le> 2 ^ 32 - 8" "unat sz \<le> length d"
  shows "for_loop (\<lambda>(i, S). i + 8 < sz)
           (\<lambda>(i, S).
              case memcpy_from d (unat i) 8 of Inl e \<Rightarrow> Inl e
              | Inr block \<Rightarrow> Inr (i + 8, cycle_16Z c (S XOR block)))
           (i, S)
         = Some (Inr (of_nat (unat i + 8 * n), mac_acc c n S (drop (unat i) d)))"
    (is "for_loop ?cond ?body _ = _")
  using assms(1)
proof (induction n arbitrary: i S)
  case 0
  have "unat i + 8 < 2 ^ 32"
    using 0 assms(2-4) by simp
  then have "unat (i + 8) = unat i + 8"
    by (simp add: unat_word_ariths)
  then have "\<not> i + 8 < sz"
    using 0 assms(3) by (simp add: word_less_nat_alt)
  then show ?case
    by (simp add: for_loop_exit)
next
  case (Suc n)
  define S' where "S' = cycle_16Z c (S XOR le_word (take 8 (drop (unat i) d)))"
  have i8: "unat (i + 8) = unat i + 8"
    using Suc.prems by (intro unat_add8 [of i sz]) simp
  then have lt: "i + 8 < sz"
    using Suc.prems assms(2) by (simp add: word_less_nat_alt)
  have rd: "memcpy_from d (unat i) 8 = Inr (le_word (take 8 (drop (unat i) d)))"
    using Suc.prems assms(5) by (intro memcpy_from_in_range) simp_all
  have body: "?body (i, S) = Inr (i + 8, S')"
    by (simp add: rd S'_def)
  have "for_loop ?cond ?body (i, S) = for_loop ?cond ?body (i + 8, S')"
    by (rule for_loop_step) (use lt body in simp_all)
  also have "\<dots> = Some (Inr (of_nat (unat (i + 8) + 8 * n), mac_acc c n S' (drop (unat (i + 8)) d)))"
    by (rule Suc.IH) (use Suc.prems i8 in simp)
  also have "mac_acc c n S' (drop (unat (i + 8)) d) = mac_acc c (Suc n) S (drop (unat i) d)"
    by (simp add: S'_def i8 add.commute)
  also have "unat (i + 8) + 8 * n = unat i + 8 * Suc n"
    by (simp add: i8)
  finally show ?case .
qed

lemma imiIns_result:
  assumes "unat sz \<le> length d" "unat sz \<le> 2 ^ 32 - 8"
  shows "imiIns c d sz =
    Some (Inr (if sz = 0 then 0
               else lo (cycle_16Z c (mac_acc c (loop_blocks sz) 0 d
                     XOR le_word (take (unat sz - 8 * loop_blocks sz) (drop (8 * loop_blocks sz) d))))))"
proof (cases "sz = 0")
  case True
  then show ?thesis
    by (simp add: imiIns_def for_loop_exit)
next
  case False
  define n where "n = loop_blocks sz"
  define t where "t = unat sz - 8 * n"
  have nt: "8 * n + t = unat sz" "1 \<le> t" "t \<le> 8"
    using loop_blocks_tail [OF False] by (simp_all add: n_def t_def)
  have i: "unat (of_nat (8 * n) :: uint32) = 8 * n"
    using nt(1) by (intro le_unat_uoi [of _ sz]) simp
  have ne: "(of_nat (8 * n) :: uint32) \<noteq> sz"
    using i nt by auto
  have le: "(of_nat (8 * n) :: uint32) \<le> sz"
    using i nt by (simp add: word_le_nat_alt)
  have ts: "unat (sz - of_nat (8 * n)) = t"
    using le i nt(1) by (simp add: unat_sub)
  then have nz: "sz - of_nat (8 * n) \<noteq> 0"
    using nt(2) by auto
  have loop: "for_loop (\<lambda>(i, S). i + 8 < sz)
           (\<lambda>(i, S).
              case memcpy_from d (unat i) 8 of Inl e \<Rightarrow> Inl e
              | Inr block \<Rightarrow> Inr (i + 8, cycle_16Z c (S XOR block)))
           (0, 0)
         = Some (Inr (of_nat (unat (0 :: uint32) + 8 * n), mac_acc c n 0 (drop (unat (0 :: uint32)) d)))"
    by (rule imiIns_loop [where t = t]) (use nt assms in simp_all)
  have tail: "memcpy_from d (8 * n) t = Inr (le_word (take t (drop (8 * n) d)))"
    using nt assms(1) by (intro memcpy_from_in_range) simp_all
  show ?thesis
    unfolding imiIns_def Let_def and_lo
    using loop False ne nz ts i tail
    by (simp add: lo_def flip: n_def t_def)
qed

lemma cycle_16Z_rounds: "cycle_16Z c = spec_reducedCycle c"
  by (rule ext) (simp add: cycle_16Z_def spec_reducedCycle_def upt2 del: upt.simps)

lemma spec_blocks_Nil: "spec_blocks m [] = []"
  by (cases m) simp_all

lemma spec_fold:
  assumes "length bs = 8 * n + t" "1 \<le> t" "t \<le> 8" "n < m"
  shows "foldl (\<lambda>acc b. spec_reducedCycle c (acc XOR le_word b)) S (spec_blocks m bs)
    = cycle_16Z c (mac_acc c n S bs XOR le_word (take t (drop (8 * n) bs)))"
  using assms(1,4)
proof (induction n arbitrary: S bs m)
  case 0
  then obtain m' where m: "m = Suc m'"
    by (cases m) auto
  have "bs \<noteq> []" "take 8 bs = bs" "drop 8 bs = []" "take t bs = bs"
    using 0 assms(2,3) by auto
  then show ?case
    by (simp add: m spec_blocks_Nil cycle_16Z_rounds)
next
  case (Suc n)
  then obtain m' where m: "m = Suc m'" and m': "n < m'"
    by (cases m) auto
  have ne: "bs \<noteq> []" and rest: "length (drop 8 bs) = 8 * n + t"
    using Suc.prems by auto
  show ?case
    using Suc.IH [OF rest m', of "cycle_16Z c (S XOR le_word (take 8 bs))"] ne
    by (simp add: m cycle_16Z_rounds add.commute)
qed

lemma mac_acc_take: "8 * k \<le> m \<Longrightarrow> mac_acc c k S (take m d) = mac_acc c k S d"
proof (induction k arbitrary: S d m)
  case 0
  then show ?case by simp
next
  case (Suc k)
  have "8 * k \<le> m - 8"
    using Suc.prems by simp
  moreover have "take 8 (take m d) = take 8 d"
    using Suc.prems by (simp add: min_def)
  moreover have "drop 8 (take m d) = take (m - 8) (drop 8 d)"
    by (simp add: drop_take)
  ultimately show ?case
    using Suc.IH [of "m - 8" "cycle_16Z c (S XOR le_word (take 8 d))" "drop 8 d"]
    by simp
qed

text \<open>
  Up to \<open>2^32 - 8\<close> bytes, \<open>imiIns\<close> returns the tag of the specification for the first
  \<open>_size\<close> bytes of the buffer.
\<close>

lemma imiIns_bounded:
  assumes "unat sz \<le> length d" "unat sz \<le> 2 ^ 32 - 8"
  shows "imiIns c d sz = Some (Inr (spec_computeMAC c (take (unat sz) d)))"
proof (cases "sz = 0")
  case True
  then show ?thesis
    using imiIns_result [OF assms, of c] by (simp add: spec_computeMAC_def)
next
  case False
  define n where "n = loop_blocks sz"
  define t where "t = unat sz - 8 * n"
  define bs where "bs = take (unat sz) d"
  have nt: "8 * n + t = unat sz" "1 \<le> t" "t \<le> 8"
    using loop_blocks_tail [OF False] by (simp_all add: n_def t_def)
  have len: "length bs = 8 * n + t"
    using assms(1) nt(1) by (simp add: bs_def)
  have m: "n < length bs"
    using len nt(2) by simp
  have acc: "mac_acc c n 0 bs = mac_acc c n 0 d"
    unfolding bs_def using nt(1) by (intro mac_acc_take) simp
  have tl: "take t (drop (8 * n) bs) = take t (drop (8 * n) d)"
    using nt(1) by (simp add: bs_def drop_take)
  have "spec_computeMAC c bs = ucast (cycle_16Z c (mac_acc c n 0 bs XOR le_word (take t (drop (8 * n) bs))))"
    unfolding spec_computeMAC_def using spec_fold [OF len nt(2,3) m, of c 0] by simp
  then show ?thesis
    using imiIns_result [OF assms, of c] False acc
    by (simp add: tl lo_def flip: n_def t_def bs_def)
qed

text \<open>
  C7 at the size \<open>2^32 - 1\<close>: whatever the key, the table and the buffer, the call of
  \<open>imiIns\<close> does not return a tag.
\<close>

theorem imiIns_max_size_no_return:
  "imiIns c d 0xFFFFFFFF \<noteq> Some (Inr r)"
  by (rule imiIns_no_return) simp

section \<open>The table that \<open>init\<close> generates\<close>

lemma nth_draw_funpow:
  "nth_draw random (((\<lambda>g. snd (random g)) ^^ k) g) n = nth_draw random g (n + k)"
  by (simp add: nth_draw_def funpow_add)

lemma init_row:
  fixes random :: "'g \<Rightarrow> nat \<times> 'g"
  defines "inner \<equiv> \<lambda>i (c, g) j.
      let (r, g) = random g
      in (c\<lparr>m_replace_table :=
               (m_replace_table c)(i := (m_replace_table c i)(j := of_nat (r mod 0xf)))\<rparr>, g)"
  shows "foldl (inner i) (c, g) [0..<m]
    = (c\<lparr>m_replace_table := (\<lambda>i' j'. if i' = i \<and> j' < m
                                        then of_nat (nth_draw random g j' mod 0xf)
                                        else m_replace_table c i' j')\<rparr>,
       ((\<lambda>g. snd (random g)) ^^ m) g)"
proof (induction m)
  case 0
  show ?case by simp
next
  case (Suc m)
  have "(\<lambda>i' j'. if i' = i \<and> j' < Suc m then of_nat (nth_draw random g j' mod 0xf)
                  else m_replace_table c i' j')
      = (\<lambda>i' j'. if i' = i \<and> j' < m then of_nat (nth_draw random g j' mod 0xf)
                  else m_replace_table c i' j')
        (i := ((\<lambda>i' j'. if i' = i \<and> j' < m then of_nat (nth_draw random g j' mod 0xf)
                  else m_replace_table c i' j') i)
              (m := of_nat (nth_draw random g m mod 0xf)))"
    by (auto simp: fun_eq_iff less_Suc_eq)
  then show ?case
    using Suc by (simp add: inner_def split_beta nth_draw_def)
qed

lemma init_rows:
  fixes random :: "'g \<Rightarrow> nat \<times> 'g"
  defines "row \<equiv> \<lambda>(c, g) i.
      let (r, g) = random g;
          c = c\<lparr>m_key := (m_key c)(i := of_nat (r mod 0xffffffff))\<rparr>
      in foldl (\<lambda>(c, g) j.
                  let (r, g) = random g
                  in (c\<lparr>m_replace_table :=
                           (m_replace_table c)
                             (i := (m_replace_table c i)(j := of_nat (r mod 0xf)))\<rparr>, g))
           (c, g) [0..<16]"
  shows "m_replace_table (fst (foldl row (c, g) [0..<n]))
      = (\<lambda>i j. if i < n \<and> j < 16 then of_nat (nth_draw random g (17 * i + j + 1) mod 0xf)
                else m_replace_table c i j)
    \<and> snd (foldl row (c, g) [0..<n]) = ((\<lambda>g. snd (random g)) ^^ (17 * n)) g"
proof (induction n)
  case 0
  show ?case by simp
next
  case (Suc n)
  define c' where "c' = fst (foldl row (c, g) [0..<n])"
  define g' where "g' = ((\<lambda>g. snd (random g)) ^^ (17 * n)) g"
  have st: "foldl row (c, g) [0..<n] = (c', g')"
    using Suc by (simp add: c'_def g'_def prod_eq_iff)
  have tab: "m_replace_table c'
      = (\<lambda>i j. if i < n \<and> j < 16 then of_nat (nth_draw random g (17 * i + j + 1) mod 0xf)
                else m_replace_table c i j)"
    using Suc by (simp add: c'_def)
  have next_g: "snd (random g') = ((\<lambda>g. snd (random g)) ^^ (17 * n + 1)) g"
    by (simp add: g'_def)
  have row: "row (c', g') n
      = (c'\<lparr>m_key := (m_key c')(n := of_nat (fst (random g') mod 0xffffffff)),
             m_replace_table := (\<lambda>i' j'. if i' = n \<and> j' < 16
                 then of_nat (nth_draw random (snd (random g')) j' mod 0xf)
                 else m_replace_table c' i' j')\<rparr>,
         ((\<lambda>g. snd (random g)) ^^ 16) (snd (random g')))"
    unfolding row_def
    using init_row [of random n "c'\<lparr>m_key := (m_key c')(n := of_nat (fst (random g') mod 0xffffffff))\<rparr>"
        "snd (random g')" 16]
    by (simp add: split_beta del: upt.simps cong: if_cong)
  have draws: "nth_draw random (snd (random g')) j = nth_draw random g (17 * n + j + 1)" for j
  proof -
    have "nth_draw random (snd (random g')) j = nth_draw random g (j + (17 * n + 1))"
      by (simp only: next_g nth_draw_funpow)
    also have "j + (17 * n + 1) = 17 * n + j + 1"
      by simp
    finally show ?thesis .
  qed
  have res: "foldl row (c, g) [0..<Suc n] = row (c', g') n"
    by (simp add: st)
  have "m_replace_table (fst (row (c', g') n))
      = (\<lambda>i j. if i < Suc n \<and> j < 16 then of_nat (nth_draw random g (17 * i + j + 1) mod 0xf)
                else m_replace_table c i j)"
    unfolding row by (auto simp: tab draws fun_eq_iff less_Suc_eq)
  moreover have "snd (row (c', g') n) = ((\<lambda>g. snd (random g)) ^^ (17 * Suc n)) g"
  proof -
    have "((\<lambda>g. snd (random g)) ^^ 16) (snd (random g'))
        = ((\<lambda>g. snd (random g)) ^^ (16 + (17 * n + 1))) g"
      by (simp only: next_g funpow_add o_apply)
    also have "16 + (17 * n + 1) = 17 * Suc n"
      by simp
    finally show ?thesis
      unfolding row by simp
  qed
  ultimately show ?case
    unfolding res by simp
qed

text \<open>
  C10. After \<open>init\<close>, with either value of the flag, the entry \<open>[i][j]\<close> of the table is
  the draw number \<open>17 i + j + 1\<close> of the generator (counted from 0 after the seeding)
  reduced modulo 15, so it lies in \<open>[0, 14]\<close>.
\<close>

theorem init_table_entries:
  assumes "i < 8" "j < 16"
  shows "m_replace_table (fst (init srandom random now c rand)) i j
      = of_nat (nth_draw random (if rand then srandom (of_nat now) else srandom 0) (17 * i + j + 1) mod 0xf)
    \<and> unat (m_replace_table (fst (init srandom random now c rand)) i j) \<le> 14"
proof -
  define g where "g = (if rand then srandom (of_nat now) else srandom 0)"
  have "m_replace_table (fst (init srandom random now c rand)) i j
      = of_nat (nth_draw random g (17 * i + j + 1) mod 0xf)"
    unfolding init_def Let_def g_def [symmetric]
    using init_rows [of random c g 8] assms by (simp del: upt.simps)
  moreover have "unat (of_nat (x mod 0xf) :: uint8) \<le> 14" for x :: nat
  proof -
    have "x mod 15 < 256"
      by (rule less_trans [of _ 15]) simp_all
    then have "unat (of_nat (x mod 15) :: uint8) = x mod 15"
      by (simp add: unat_of_nat)
    moreover have "x mod 15 \<le> 14"
      by simp
    ultimately show ?thesis
      by simp
  qed
  ultimately show ?thesis
    by (simp add: g_def)
qed

theorem init_table_entries_witness:
  "(7 :: nat) < 8 \<and> (14 :: nat) < 16 \<and>
   m_replace_table (fst (init counting_srandom counting_random 0 example_cr False)) 7 14
     = of_nat (nth_draw counting_random (counting_srandom 0) (17 * 7 + 14 + 1) mod 0xf) \<and>
   unat (m_replace_table (fst (init counting_srandom counting_random 0 example_cr False)) 7 14) \<le> 14"
proof -
  have h: "(7 :: nat) < 8" "(14 :: nat) < 16"
    by simp_all
  show ?thesis
    using h init_table_entries [OF h, of counting_srandom counting_random 0 example_cr False,
        unfolded if_False]
    by blast
qed

section \<open>The acceptance test of the synchro\<close>

lemma count_loop:
  "foldl (\<lambda>zero i. if P i then zero + 1 else zero) (z :: uint8) xs = z + of_nat (length (filter P xs))"
  by (induction xs arbitrary: z) (simp_all add: add.assoc)

lemma counted_bits_le: "counted_bits wide S \<le> 64"
  using length_filter_le [of "\<lambda>i. S AND shl_one wide i \<noteq> 0" "[0..<64]"]
  by (simp add: counted_bits_def del: upt.simps)

lemma diff_value:
  assumes "k \<le> 64"
  shows "unat ((of_nat k :: uint8) - (64 - of_nat k)) = (if 32 \<le> k then 2 * k - 64 else 192 + 2 * k)"
proof -
  have k: "unat (of_nat k :: uint8) = k"
    using assms by (simp add: unat_of_nat)
  have "(of_nat k :: uint8) \<le> 64"
    using assms k by (simp add: word_le_nat_alt)
  then have r: "unat (64 - of_nat k :: uint8) = 64 - k"
    using k by (simp add: unat_sub)
  have "2 * k < 256"
    using assms by simp
  then have d: "unat (2 * of_nat k :: uint8) = 2 * k"
    using k by (simp add: unat_word_ariths)
  show ?thesis
    using assms k r d by (simp add: unat_sub_if')
qed

lemma bound_compare: "real n \<ge> 64 * 12 / 100 \<longleftrightarrow> 8 \<le> n"
proof
  assume "real n \<ge> 64 * 12 / 100"
  then have "real 7 < real n"
    by simp
  then have "7 < n"
    by (simp only: of_nat_less_iff)
  then show "8 \<le> n"
    by simp
next
  assume "8 \<le> n"
  then have "real 8 \<le> real n"
    by (simp only: of_nat_le_iff)
  then show "real n \<ge> 64 * 12 / 100"
    by simp
qed

text \<open>
  Whatever the shifts by 32 and more give, \<open>isCurrentS\<close> accepts exactly when the counted
  number lies in \<open>32..35\<close>: \<open>diff\<close> is a \<open>uint8\<close>, so a count below 32 makes it at least
  192 and the comparison \<open>diff <= -bound\<close> never holds.
\<close>

lemma isCurrentS_iff:
  "isCurrentS wide S \<longleftrightarrow> 32 \<le> counted_bits wide S \<and> counted_bits wide S \<le> 35"
proof -
  define k where "k = counted_bits wide S"
  have zero: "foldl (\<lambda>zero i. if S AND shl_one wide i \<noteq> 0 then zero + 1 else zero) (0 :: uint8) [0..<64]
      = of_nat k"
    by (simp add: count_loop k_def counted_bits_def del: upt.simps)
  have k: "k \<le> 64"
    unfolding k_def by (rule counted_bits_le)
  have neg: "\<not> real n \<le> - (64 * 12 / 100)" for n
  proof -
    have "- (64 * 12 / 100) < (0 :: real)" "0 \<le> real n"
      by simp_all
    then show ?thesis
      by linarith
  qed
  define dv where "dv = unat ((of_nat k :: uint8) - (64 - of_nat k))"
  have "isCurrentS wide S \<longleftrightarrow> \<not> (real dv \<ge> 64 * 12 / 100 \<or> real dv \<le> - (64 * 12 / 100))"
    unfolding isCurrentS_def Let_def zero by (simp add: dv_def)
  also have "\<dots> \<longleftrightarrow> \<not> 8 \<le> dv"
    by (simp only: bound_compare neg simp_thms)
  also have "dv = (if 32 \<le> k then 2 * k - 64 else 192 + 2 * k)"
    unfolding dv_def using k by (rule diff_value)
  finally show ?thesis
    unfolding k_def [symmetric] by (simp split: if_splits) arith
qed

text \<open>
  C9. The synchro \<open>0x1FFFFFFF\<close> has 29 set bits, which is within 12 per cent of 32, and
  \<open>isCurrentS\<close> rejects it, both when a shift by 32 or more takes its count modulo 32
  and when it gives 0.
\<close>

theorem isCurrentS_rejects_balanced:
  "isCurrentS wide_x86 0x1FFFFFFF = False \<and> isCurrentS (\<lambda>i. 0) 0x1FFFFFFF = False \<and>
   popcount 0x1FFFFFFF = 29 \<and> spec_balanced 0x1FFFFFFF = True"
proof -
  have "isCurrentS wide_x86 0x1FFFFFFF = False"
    by code_simp
  moreover have "isCurrentS (\<lambda>i. 0) 0x1FFFFFFF = False"
    by code_simp
  moreover have p: "popcount 0x1FFFFFFF = 29"
    by code_simp
  moreover have "spec_balanced 0x1FFFFFFF = True"
    by (simp add: spec_balanced_def p)
  ultimately show ?thesis
    by (intro conjI)
qed

text \<open>
  In the other direction, with the shift count taken modulo 32 the low bits are counted
  twice: \<open>0xFFFF\<close>, with 16 set bits, is accepted.
\<close>

lemma isCurrentS_accepts_unbalanced:
  "isCurrentS wide_x86 0xFFFF = True \<and> popcount 0xFFFF = 16 \<and> spec_balanced 0xFFFF = False"
proof -
  have "isCurrentS wide_x86 0xFFFF = True"
    by code_simp
  moreover have p: "popcount 0xFFFF = 16"
    by code_simp
  moreover have "spec_balanced 0xFFFF = False"
    by (simp add: spec_balanced_def p)
  ultimately show ?thesis
    by (intro conjI)
qed

end
